theory Spec2Isabelle
  imports Main "HOL-Library.Multiset"
begin

section \<open>The notification queues of dunst (src/queues.c)\<close>

text \<open>
  The file keeps three queues of notifications (waiting, displayed, history), a display
  limit, an identifier counter and a pause flag in global variables. The model keeps them
  in one record that every operation takes and returns. A queue is a \<open>GQueue\<close> of
  pointers; each notification is owned by exactly one queue slot, so a queue is modelled
  as the list of the notifications its slots point to, head first, and writing through a
  slot's pointer is an update of that list element.

  What the file calls but does not define is a parameter of the model: the comparator
  \<open>notification_cmp_data\<close>, the predicate \<open>notification_is_duplicate\<close>, the global
  \<open>settings\<close> and the clock \<open>time_monotonic_now\<close> (one reading \<open>now\<close> per call of an
  operation). Calls that only have an effect outside the file (running a script, the
  closed signal, freeing, printing) are recorded in logs, in call order.
  \<open>queues_history_push_all\<close> and \<open>teardown_queues\<close> are left out: no property
  below is about them.
\<close>

subsection \<open>Machine integers\<close>

text \<open>
  \<open>int\<close> is 32 bits and \<open>gint64\<close> is 64 bits, both signed. Values are kept as
  integers and the result of every arithmetic operation is wrapped into the type's range.
\<close>

definition int_wrap :: "int \<Rightarrow> int" where
  "int_wrap x = (x + 2 ^ 31) mod 2 ^ 32 - 2 ^ 31"

definition gint64_wrap :: "int \<Rightarrow> int" where
  "gint64_wrap x = (x + 2 ^ 63) mod 2 ^ 64 - 2 ^ 63"

definition is_int :: "int \<Rightarrow> bool" where
  "is_int x \<longleftrightarrow> - (2 ^ 31) \<le> x \<and> x < 2 ^ 31"

definition is_gint64 :: "int \<Rightarrow> bool" where
  "is_gint64 x \<longleftrightarrow> - (2 ^ 63) \<le> x \<and> x < 2 ^ 63"

definition G_MAXINT64 :: int where
  "G_MAXINT64 = 2 ^ 63 - 1"

definition G_USEC_PER_SEC :: int where
  "G_USEC_PER_SEC = 1000000"

text \<open>The remainder of C: the quotient is truncated towards zero.\<close>

definition c_rem :: "int \<Rightarrow> int \<Rightarrow> int" where
  "c_rem a b = a - b * (sgn a * sgn b * (\<bar>a\<bar> div \<bar>b\<bar>))"

subsection \<open>Data\<close>

datatype fullscreen_behavior = FS_SHOW | FS_DELAY | FS_PUSHBACK

text \<open>
  The reason given to \<open>signal_notification_closed\<close>: the two enumerators the file
  names, and the literal \<open>1\<close> that \<open>queues_stack_duplicate\<close> passes, which the
  specification calls "replaced". The enumeration itself is declared outside the file.
\<close>

datatype reason = REASON_TIME | REASON_USER | REASON_LITERAL int

text \<open>The fields of \<open>notification\<close> that the file reads or writes, and the urgency.\<close>

record notification =
  n_id :: int
  summary :: string
  body :: string
  msg :: string
  urgency :: int
  timestamp :: int
  progress :: int
  dup_count :: int
  start :: int
  timeout :: int
  transient :: bool
  fullscreen :: fullscreen_behavior
  redisplayed :: bool
  history_ignore :: bool
  script :: "string option"

text \<open>The fields of the global \<open>settings\<close> that the file reads.\<close>

record settings =
  always_run_script :: bool
  stack_duplicates :: bool
  print_notifications :: bool
  sticky_history :: bool
  history_length :: int
  show_age_threshold :: int

record queues =
  waiting :: "notification list"
  displayed :: "notification list"
  history :: "notification list"
  displayed_limit :: nat
  next_notification_id :: int
  pause_displayed :: bool
  scripts_run :: "notification list"
  signals_closed :: "(notification \<times> reason) list"
  freed :: "notification list"
  printed :: "notification list"

datatype error = AssertionFailed

type_synonym cmp_func = "notification \<Rightarrow> notification \<Rightarrow> int"
type_synonym dup_func = "notification \<Rightarrow> notification \<Rightarrow> bool"

definition queues_init :: queues where
  "queues_init = \<lparr>waiting = [], displayed = [], history = [], displayed_limit = 0,
     next_notification_id = 1, pause_displayed = False, scripts_run = [],
     signals_closed = [], freed = [], printed = []\<rparr>"

definition queues_displayed_limit :: "nat \<Rightarrow> queues \<Rightarrow> queues" where
  "queues_displayed_limit limit q = q\<lparr>displayed_limit := limit\<rparr>"

definition queues_get_displayed :: "queues \<Rightarrow> notification list" where
  "queues_get_displayed q = displayed q"

definition queues_length_waiting :: "queues \<Rightarrow> nat" where
  "queues_length_waiting q = length (waiting q)"

definition queues_length_displayed :: "queues \<Rightarrow> nat" where
  "queues_length_displayed q = length (displayed q)"

definition queues_length_history :: "queues \<Rightarrow> nat" where
  "queues_length_history q = length (history q)"

subsection \<open>The effects outside the file\<close>

definition notification_run_script :: "notification \<Rightarrow> queues \<Rightarrow> queues" where
  "notification_run_script n q = q\<lparr>scripts_run := scripts_run q @ [n]\<rparr>"

definition signal_notification_closed :: "notification \<Rightarrow> reason \<Rightarrow> queues \<Rightarrow> queues" where
  "signal_notification_closed n r q = q\<lparr>signals_closed := signals_closed q @ [(n, r)]\<rparr>"

definition notification_free :: "notification \<Rightarrow> queues \<Rightarrow> queues" where
  "notification_free n q = q\<lparr>freed := freed q @ [n]\<rparr>"

definition notification_print :: "notification \<Rightarrow> queues \<Rightarrow> queues" where
  "notification_print n q = q\<lparr>printed := printed q @ [n]\<rparr>"

subsection \<open>GLib's queue operations\<close>

text \<open>
  \<open>g_queue_insert_sorted\<close> walks from the head while the comparator puts the element
  it looks at strictly before the new one, and links the new one in front of the first
  element where it does not (or at the tail).
\<close>

fun g_queue_insert_sorted :: "notification list \<Rightarrow> notification \<Rightarrow> cmp_func \<Rightarrow> notification list" where
  "g_queue_insert_sorted [] d func = [d]"
| "g_queue_insert_sorted (x # xs) d func =
     (if func x d < 0 then x # g_queue_insert_sorted xs d func else d # x # xs)"

text \<open>\<open>g_queue_delete_link\<close> unlinks one node; the node is named by its position.\<close>

definition g_queue_delete_link :: "notification list \<Rightarrow> nat \<Rightarrow> notification list" where
  "g_queue_delete_link xs i = take i xs @ drop (Suc i) xs"

subsection \<open>History\<close>

definition queues_history_pop :: "settings \<Rightarrow> queues \<Rightarrow> queues" where
  "queues_history_pop st q =
     (if history q = [] then q
      else
        let n = last (history q);
            n = n\<lparr>redisplayed := True\<rparr>;
            n = n\<lparr>start := 0\<rparr>;
            n = n\<lparr>timeout := (if sticky_history st then 0 else timeout n)\<rparr>
        in q\<lparr>history := butlast (history q), waiting := n # waiting q\<rparr>)"

text \<open>
  In \<open>queues_history_push\<close> the head is popped only from a history that has reached a
  positive bound, so it is never popped from an empty one.
\<close>

definition queues_history_push :: "settings \<Rightarrow> notification \<Rightarrow> queues \<Rightarrow> queues" where
  "queues_history_push st n q =
     (if \<not> history_ignore n then
        let q = (if history_length st > 0 \<and> int (length (history q)) \<ge> history_length st
                 then (case history q of
                         [] \<Rightarrow> q
                       | to_free # rest \<Rightarrow> notification_free to_free (q\<lparr>history := rest\<rparr>))
                 else q)
        in q\<lparr>history := history q @ [n]\<rparr>
      else notification_free n q)"

subsection \<open>Closing\<close>

text \<open>
  \<open>queues_notification_close_id\<close> looks for the first node with the identifier in
  displayed, then in waiting, and unlinks it with \<open>g_queue_remove\<close>, which removes the
  first node holding that notification. Finding the identifier in both queues fails the
  assertion.
\<close>

definition close_target :: "settings \<Rightarrow> notification option \<Rightarrow> reason \<Rightarrow> queues \<Rightarrow> queues" where
  "close_target st target r q =
     (case target of
        None \<Rightarrow> q
      | Some t \<Rightarrow>
          queues_history_push st t
            (if \<not> redisplayed t then signal_notification_closed t r q else q))"

definition queues_notification_close_id :: "settings \<Rightarrow> int \<Rightarrow> reason \<Rightarrow> queues \<Rightarrow> error + queues" where
  "queues_notification_close_id st i r q =
     (let (target, q) =
            (case find (\<lambda>n. n_id n = i) (displayed q) of
               None \<Rightarrow> (None, q)
             | Some n \<Rightarrow> (Some n, q\<lparr>displayed := remove1 n (displayed q)\<rparr>))
      in case find (\<lambda>n. n_id n = i) (waiting q) of
           None \<Rightarrow> Inr (close_target st target r q)
         | Some n \<Rightarrow>
             if target \<noteq> None then Inl AssertionFailed
             else Inr (close_target st (Some n) r (q\<lparr>waiting := remove1 n (waiting q)\<rparr>)))"


subsection \<open>Stacking and replacing\<close>

text \<open>
  Each scan returns, at the first match, the queue with the slot's content swapped, the
  new notification as it then is, and the old one as it was left; \<open>None\<close> when the
  loop runs off the end.
\<close>

definition stack_orig :: "notification \<Rightarrow> notification \<Rightarrow> notification" where
  "stack_orig orig n =
     (if progress orig = progress n then orig\<lparr>dup_count := int_wrap (dup_count orig + 1)\<rparr>
      else orig\<lparr>progress := progress n\<rparr>)"

fun stack_displayed :: "dup_func \<Rightarrow> int \<Rightarrow> notification \<Rightarrow> notification list \<Rightarrow>
    (notification list \<times> notification \<times> notification) option" where
  "stack_displayed is_dup now n [] = None"
| "stack_displayed is_dup now n (orig # iter) =
     (if is_dup orig n then
        let orig = stack_orig orig n;
            n = n\<lparr>start := now\<rparr>;
            n = n\<lparr>dup_count := dup_count orig\<rparr>
        in Some (n # iter, n, orig)
      else map_option (\<lambda>(xs, r). (orig # xs, r)) (stack_displayed is_dup now n iter))"

fun stack_waiting :: "dup_func \<Rightarrow> notification \<Rightarrow> notification list \<Rightarrow>
    (notification list \<times> notification \<times> notification) option" where
  "stack_waiting is_dup n [] = None"
| "stack_waiting is_dup n (orig # iter) =
     (if is_dup orig n then
        let orig = stack_orig orig n;
            n = n\<lparr>dup_count := dup_count orig\<rparr>
        in Some (n # iter, n, orig)
      else map_option (\<lambda>(xs, r). (orig # xs, r)) (stack_waiting is_dup n iter))"

definition queues_stack_duplicate :: "dup_func \<Rightarrow> int \<Rightarrow> notification \<Rightarrow> queues \<Rightarrow>
    bool \<times> notification \<times> queues" where
  "queues_stack_duplicate is_dup now n q =
     (case stack_displayed is_dup now n (displayed q) of
        Some (xs, n', orig) \<Rightarrow>
          (True, n',
           notification_free orig
             (signal_notification_closed orig (REASON_LITERAL 1) (q\<lparr>displayed := xs\<rparr>)))
      | None \<Rightarrow>
          (case stack_waiting is_dup n (waiting q) of
             Some (xs, n', orig) \<Rightarrow>
               (True, n',
                notification_free orig
                  (signal_notification_closed orig (REASON_LITERAL 1) (q\<lparr>waiting := xs\<rparr>)))
           | None \<Rightarrow> (False, n, q)))"

fun replace_displayed :: "int \<Rightarrow> notification \<Rightarrow> notification list \<Rightarrow>
    (notification list \<times> notification \<times> notification) option" where
  "replace_displayed now new [] = None"
| "replace_displayed now new (old # iter) =
     (if n_id old = n_id new then
        let new = new\<lparr>start := now\<rparr>;
            new = new\<lparr>dup_count := dup_count old\<rparr>
        in Some (new # iter, new, old)
      else map_option (\<lambda>(xs, r). (old # xs, r)) (replace_displayed now new iter))"

fun replace_waiting :: "notification \<Rightarrow> notification list \<Rightarrow>
    (notification list \<times> notification \<times> notification) option" where
  "replace_waiting new [] = None"
| "replace_waiting new (old # iter) =
     (if n_id old = n_id new then
        let new = new\<lparr>dup_count := dup_count old\<rparr>
        in Some (new # iter, new, old)
      else map_option (\<lambda>(xs, r). (old # xs, r)) (replace_waiting new iter))"

definition queues_notification_replace_id :: "int \<Rightarrow> notification \<Rightarrow> queues \<Rightarrow>
    bool \<times> notification \<times> queues" where
  "queues_notification_replace_id now new q =
     (case replace_displayed now new (displayed q) of
        Some (xs, new', old) \<Rightarrow>
          (True, new', notification_free old (notification_run_script new' (q\<lparr>displayed := xs\<rparr>)))
      | None \<Rightarrow>
          (case replace_waiting new (waiting q) of
             Some (xs, new', old) \<Rightarrow> (True, new', notification_free old (q\<lparr>waiting := xs\<rparr>))
           | None \<Rightarrow> (False, new, q)))"

subsection \<open>Inserting\<close>

text \<open>
  The result is the returned identifier and the new state. The notification as the call
  leaves it is the one in the queue slot.
\<close>

definition insert_enqueue :: "settings \<Rightarrow> cmp_func \<Rightarrow> dup_func \<Rightarrow> int \<Rightarrow> notification \<Rightarrow> queues \<Rightarrow>
    notification \<times> queues" where
  "insert_enqueue st cmp is_dup now n q =
     (if n_id n = 0 then
        let q = q\<lparr>next_notification_id := int_wrap (next_notification_id q + 1)\<rparr>;
            n = n\<lparr>n_id := next_notification_id q\<rparr>
        in if \<not> stack_duplicates st then (n, q\<lparr>waiting := g_queue_insert_sorted (waiting q) n cmp\<rparr>)
           else (case queues_stack_duplicate is_dup now n q of
                   (stacked, n', q') \<Rightarrow>
                     if \<not> stacked then (n', q'\<lparr>waiting := g_queue_insert_sorted (waiting q') n' cmp\<rparr>)
                     else (n', q'))
      else (case queues_notification_replace_id now n q of
              (replaced, n', q') \<Rightarrow>
                if \<not> replaced then (n', q'\<lparr>waiting := g_queue_insert_sorted (waiting q') n' cmp\<rparr>)
                else (n', q')))"

definition queues_notification_insert :: "settings \<Rightarrow> cmp_func \<Rightarrow> dup_func \<Rightarrow> int \<Rightarrow> notification \<Rightarrow> queues \<Rightarrow>
    int \<times> queues" where
  "queues_notification_insert st cmp is_dup now n q =
     (if length (msg n) = 0 then
        (0, if always_run_script st then notification_run_script n q else q)
      else if summary n = ''DUNST_COMMAND_PAUSE'' then (0, q\<lparr>pause_displayed := True\<rparr>)
      else if summary n = ''DUNST_COMMAND_RESUME'' then (0, q\<lparr>pause_displayed := False\<rparr>)
      else if summary n = ''DUNST_COMMAND_TOGGLE'' then
        (0, q\<lparr>pause_displayed := \<not> pause_displayed q\<rparr>)
      else
        (case insert_enqueue st cmp is_dup now n q of
           (n', q') \<Rightarrow>
             (n_id n', if print_notifications st then notification_print n' q' else q')))"

subsection \<open>Timeouts\<close>



subsection \<open>Updating\<close>

text \<open>
  While paused, the head of displayed is popped and inserted into waiting until displayed
  is empty: the loop takes the displayed notifications in order and returns the waiting
  queue.
\<close>

fun update_pause_loop :: "cmp_func \<Rightarrow> notification list \<Rightarrow> notification list \<Rightarrow> notification list" where
  "update_pause_loop cmp [] w = w"
| "update_pause_loop cmp (n # d) w = update_pause_loop cmp d (g_queue_insert_sorted w n cmp)"

text \<open>
  Both walks of the unpaused update keep the next node before they unlink the current
  one, and what they unlink is the current node only: they run over the list as it was
  at the start of the walk, and the current node is again named by the number of nodes
  after it.
  A queue holds no null pointer, so the promotion walk never takes its early return for
  one.
\<close>

fun update_pushback_loop :: "cmp_func \<Rightarrow> notification list \<Rightarrow> queues \<Rightarrow> queues" where
  "update_pushback_loop cmp [] q = q"
| "update_pushback_loop cmp (n # nextiter) q =
     (if fullscreen n = FS_PUSHBACK then
        update_pushback_loop cmp nextiter
          (q\<lparr>displayed :=
               g_queue_delete_link (displayed q) (length (displayed q) - Suc (length nextiter)),
             waiting := g_queue_insert_sorted (waiting q) n cmp\<rparr>)
      else update_pushback_loop cmp nextiter q)"

fun update_promote_loop :: "cmp_func \<Rightarrow> int \<Rightarrow> bool \<Rightarrow> notification list \<Rightarrow> queues \<Rightarrow> queues" where
  "update_promote_loop cmp now fs [] q = q"
| "update_promote_loop cmp now fs (n # nextiter) q =
     (if displayed_limit q > 0 \<and> length (displayed q) \<ge> displayed_limit q then q
      else if fs \<and> (fullscreen n = FS_DELAY \<or> fullscreen n = FS_PUSHBACK) then
        update_promote_loop cmp now fs nextiter q
      else
        let n = n\<lparr>start := now\<rparr>;
            q = (if \<not> redisplayed n \<and> script n \<noteq> None then notification_run_script n q else q)
        in update_promote_loop cmp now fs nextiter
             (q\<lparr>waiting :=
                  g_queue_delete_link (waiting q) (length (waiting q) - Suc (length nextiter)),
                displayed := g_queue_insert_sorted (displayed q) n cmp\<rparr>))"

definition queues_update :: "cmp_func \<Rightarrow> int \<Rightarrow> bool \<Rightarrow> queues \<Rightarrow> queues" where
  "queues_update cmp now fs q =
     (if pause_displayed q then
        q\<lparr>waiting := update_pause_loop cmp (displayed q) (waiting q), displayed := []\<rparr>
      else
        let q = (if fs then update_pushback_loop cmp (displayed q) q else q)
        in update_promote_loop cmp now fs (waiting q) q)"

subsection \<open>The next wake-up\<close>

definition MIN_gint64 :: "int \<Rightarrow> int \<Rightarrow> int" where
  "MIN_gint64 a b = (if a < b then a else b)"

fun datachange_loop :: "settings \<Rightarrow> int \<Rightarrow> notification list \<Rightarrow> int \<Rightarrow> int" where
  "datachange_loop st time [] sleep = (if sleep \<noteq> G_MAXINT64 then sleep else - 1)"
| "datachange_loop st time (n # iter) sleep =
     (let ttl = gint64_wrap (timeout n - gint64_wrap (time - start n)) in
      if timeout n > 0 \<and> \<not> ttl > 0 then 0
      else
        let sleep = (if timeout n > 0 then MIN_gint64 sleep ttl else sleep);
            sleep =
              (if show_age_threshold st \<ge> 0 then
                 let age = gint64_wrap (time - timestamp n) in
                 if age > show_age_threshold st then
                   MIN_gint64 sleep (gint64_wrap (G_USEC_PER_SEC - c_rem age G_USEC_PER_SEC))
                 else if timeout n = 0 \<or> ttl > show_age_threshold st then
                   MIN_gint64 sleep (show_age_threshold st)
                 else sleep
               else sleep)
        in datachange_loop st time iter sleep)"

definition queues_get_next_datachange :: "settings \<Rightarrow> int \<Rightarrow> queues \<Rightarrow> int" where
  "queues_get_next_datachange st time q = datachange_loop st time (displayed q) G_MAXINT64"

subsection \<open>Pausing\<close>

definition queues_pause_on :: "queues \<Rightarrow> queues" where
  "queues_pause_on q = q\<lparr>pause_displayed := True\<rparr>"

definition queues_pause_off :: "queues \<Rightarrow> queues" where
  "queues_pause_off q = q\<lparr>pause_displayed := False\<rparr>"

definition queues_pause_status :: "queues \<Rightarrow> bool" where
  "queues_pause_status q = pause_displayed q"

subsection \<open>Sorted queues\<close>

text \<open>
  A queue is sorted when the comparator puts no element after its successor. The
  comparator is consistent when it never puts two elements each after the other and
  "not after" is transitive.
\<close>

definition queue_sorted :: "cmp_func \<Rightarrow> notification list \<Rightarrow> bool" where
  "queue_sorted cmp xs = successively (\<lambda>a b. cmp a b \<le> 0) xs"

definition cmp_consistent :: "cmp_func \<Rightarrow> bool" where
  "cmp_consistent cmp \<longleftrightarrow>
     (\<forall>a b. 0 \<le> cmp a b \<longrightarrow> cmp b a \<le> 0) \<and>
     (\<forall>a b c. cmp a b \<le> 0 \<and> cmp b c \<le> 0 \<longrightarrow> cmp a c \<le> 0)"

subsection \<open>The paths of an insertion\<close>

text \<open>
  Names for the cases of \<open>queues_notification_insert\<close>: the summary is one of the
  three commands; the identifier a fresh notification gets; and the notification reaches
  \<open>g_queue_insert_sorted\<close> (it has a text, is no command, and the scan for a
  duplicate or for its identifier finds nothing).
\<close>

definition is_command :: "notification \<Rightarrow> bool" where
  "is_command n \<longleftrightarrow> summary n = ''DUNST_COMMAND_PAUSE'' \<or> summary n = ''DUNST_COMMAND_RESUME''
     \<or> summary n = ''DUNST_COMMAND_TOGGLE''"

definition fresh_id :: "queues \<Rightarrow> int" where
  "fresh_id q = int_wrap (next_notification_id q + 1)"

text \<open>
  An insertion writes three fields of the new notification: the identifier, the start
  and the duplicate counter. \<open>inserted_as n' n\<close>: \<open>n'\<close> is \<open>n\<close> up to these.
\<close>

definition inserted_as :: "notification \<Rightarrow> notification \<Rightarrow> bool" where
  "inserted_as n' n \<longleftrightarrow>
     n'\<lparr>n_id := 0, start := 0, dup_count := 0\<rparr> = n\<lparr>n_id := 0, start := 0, dup_count := 0\<rparr>"

definition sorted_insertion :: "settings \<Rightarrow> dup_func \<Rightarrow> notification \<Rightarrow> queues \<Rightarrow> bool" where
  "sorted_insertion st is_dup n q \<longleftrightarrow>
     msg n \<noteq> [] \<and> \<not> is_command n \<and>
     (if n_id n = 0
      then \<not> stack_duplicates st \<or>
           (\<forall>x\<in>set (displayed q @ waiting q). \<not> is_dup x (n\<lparr>n_id := fresh_id q\<rparr>))
      else \<forall>x\<in>set (displayed q @ waiting q). n_id x \<noteq> n_id n)"

subsection \<open>What a promotion walk leaves behind\<close>

text \<open>\<open>drop_first k P xs\<close> is \<open>xs\<close> without its first \<open>k\<close> elements that satisfy \<open>P\<close>.\<close>

fun drop_first :: "nat \<Rightarrow> ('a \<Rightarrow> bool) \<Rightarrow> 'a list \<Rightarrow> 'a list" where
  "drop_first k P [] = []"
| "drop_first k P (x # xs) =
     (case k of 0 \<Rightarrow> x # xs
      | Suc j \<Rightarrow> if P x then drop_first j P xs else x # drop_first k P xs)"

subsection \<open>What a timeout scan has to do\<close>



subsection \<open>Instances of the parameters and example data\<close>

text \<open>
  A comparator in the manner of the specification (more urgent first, then by
  identifier) and a duplicate predicate (same texts and urgency), for evaluating the
  operations on concrete queues.
\<close>

definition cmp_urgency_id :: cmp_func where
  "cmp_urgency_id a b =
     (if urgency a > urgency b then - 1 else if urgency a < urgency b then 1
      else if n_id a < n_id b then - 1 else if n_id a > n_id b then 1 else 0)"

definition same_text :: dup_func where
  "same_text a b \<longleftrightarrow> summary a = summary b \<and> body a = body b \<and> urgency a = urgency b"

definition example_settings :: settings where
  "example_settings = \<lparr>always_run_script = False, stack_duplicates = True,
     print_notifications = False, sticky_history = False, history_length = 2,
     show_age_threshold = - 1\<rparr>"

definition example_note :: notification where
  "example_note = \<lparr>n_id = 0, summary = ''mail'', body = ''inbox'', msg = ''mail inbox'',
     urgency = 1, timestamp = 0, progress = 0, dup_count = 0, start = 0, timeout = 5000,
     transient = False, fullscreen = FS_SHOW, redisplayed = False, history_ignore = False,
     script = None\<rparr>"

text \<open>Two waiting notifications of normal urgency, in order of their identifiers.\<close>

definition two_waiting :: queues where
  "two_waiting = queues_init\<lparr>waiting := [example_note\<lparr>n_id := 2\<rparr>, example_note\<lparr>n_id := 3\<rparr>],
     next_notification_id := 3\<rparr>"

text \<open>
  One notification displayed with the display limit 1, one waiting, and a less urgent
  one in the history.
\<close>

definition full_display :: queues where
  "full_display = queues_init\<lparr>displayed := [example_note\<lparr>n_id := 2, start := 10\<rparr>],
     waiting := [example_note\<lparr>n_id := 4\<rparr>],
     history := [example_note\<lparr>n_id := 3, urgency := 0\<rparr>],
     displayed_limit := 1, next_notification_id := 4\<rparr>"

text \<open>One notification displayed and one waiting, both counted as duplicates before.\<close>

definition one_each :: queues where
  "one_each = queues_init\<lparr>displayed := [example_note\<lparr>n_id := 2, start := 10, dup_count := 4\<rparr>],
     waiting := [example_note\<lparr>n_id := 3, dup_count := 7\<rparr>], next_notification_id := 3\<rparr>"


text \<open>
  Paused, with one notification displayed that is to be delayed under fullscreen and one
  waiting that is not.
\<close>

definition paused_delayed :: queues where
  "paused_delayed = queues_init\<lparr>displayed := [example_note\<lparr>n_id := 2, start := 10, fullscreen := FS_DELAY\<rparr>],
     waiting := [example_note\<lparr>n_id := 3\<rparr>], next_notification_id := 3, pause_displayed := True\<rparr>"


section \<open>Properties\<close>

subsection \<open>History\<close>

text \<open>
  Claim C1 as amended. Popping a non-empty history takes its tail entry, marks it
  redisplayed, resets its start to 0, resets its timeout to 0 when \<open>sticky_history\<close> is
  set and keeps the timeout otherwise, and pushes it at the head of waiting.
\<close>

theorem history_pop_recalls:
  assumes "history q \<noteq> []"
  shows "\<exists>n'. waiting (queues_history_pop st q) = n' # waiting q
     \<and> history (queues_history_pop st q) = butlast (history q)
     \<and> n' = (last (history q))\<lparr>redisplayed := True, start := 0,
              timeout := (if sticky_history st then 0 else timeout (last (history q)))\<rparr>
     \<and> redisplayed n' \<and> start n' = 0
     \<and> timeout n' = (if sticky_history st then 0 else timeout (last (history q)))"
  using assms by (simp add: queues_history_pop_def Let_def)

theorem history_pop_recalls_witness:
  "history (queues_init\<lparr>history := [example_note]\<rparr>) \<noteq> []
   \<and> waiting (queues_history_pop (example_settings\<lparr>sticky_history := True\<rparr>)
        (queues_init\<lparr>history := [example_note]\<rparr>))
       = [example_note\<lparr>redisplayed := True, timeout := 0\<rparr>]"
proof -
  have h: "history (queues_init\<lparr>history := [example_note]\<rparr>) \<noteq> []" by simp
  show ?thesis
    using h history_pop_recalls[OF h, of "example_settings\<lparr>sticky_history := True\<rparr>"]
    by (auto simp: queues_init_def example_note_def)
qed

text \<open>
  Claim C1 as stated has the policy the other way round (timeout reset unless
  \<open>sticky_history\<close>). With \<open>sticky_history\<close> off, an entry with timeout 5000 comes back
  with timeout 5000, not 0.
\<close>

theorem history_pop_keeps_timeout_counterexample:
  "\<not> sticky_history example_settings
   \<and> timeout (last (history (queues_init\<lparr>history := [example_note]\<rparr>))) = 5000
   \<and> timeout (hd (waiting (queues_history_pop example_settings
        (queues_init\<lparr>history := [example_note]\<rparr>)))) = 5000
   \<and> timeout (hd (waiting (queues_history_pop example_settings
        (queues_init\<lparr>history := [example_note]\<rparr>)))) \<noteq> 0"
  by (simp add: queues_history_pop_def Let_def example_settings_def queues_init_def
      example_note_def)

lemma history_push_history:
  "history (queues_history_push st n q) =
     (if history_ignore n then history q
      else if 0 < history_length st \<and> history_length st \<le> int (length (history q))
        then tl (history q) @ [n] else history q @ [n])"
  by (cases "history q") (auto simp: queues_history_push_def notification_free_def Let_def)

lemma history_push_freed:
  "freed (queues_history_push st n q) =
     (if history_ignore n then freed q @ [n]
      else if 0 < history_length st \<and> history_length st \<le> int (length (history q))
        then freed q @ [hd (history q)] else freed q)"
  by (cases "history q") (auto simp: queues_history_push_def notification_free_def Let_def)

lemma history_push_seq_drop:
  assumes "0 < history_length st" "int (length (history q)) \<le> history_length st"
  shows "history (foldl (\<lambda>q n. queues_history_push st n q) q ns) =
     drop (length (history q @ filter (\<lambda>n. \<not> history_ignore n) ns) - nat (history_length st))
       (history q @ filter (\<lambda>n. \<not> history_ignore n) ns)"
  using assms
proof (induction ns arbitrary: q)
  case Nil
  then show ?case by simp
next
  case (Cons n ns)
  let ?q = "queues_history_push st n q"
  let ?f = "filter (\<lambda>n. \<not> history_ignore n) ns"
  have len: "int (length (history ?q)) \<le> history_length st"
    using Cons.prems by (cases "history q") (auto simp: history_push_history)
  have IH: "history (foldl (\<lambda>q n. queues_history_push st n q) ?q ns) =
     drop (length (history ?q @ ?f) - nat (history_length st)) (history ?q @ ?f)"
    using Cons.IH[OF Cons.prems(1) len] .
  show ?case
  proof (cases "history_ignore n")
    case True
    then show ?thesis using IH by (simp add: history_push_history)
  next
    case False
    show ?thesis
    proof (cases "history_length st \<le> int (length (history q))")
      case full: True
      then obtain x h where h: "history q = x # h"
        using Cons.prems(1) by (cases "history q") auto
      have b: "nat (history_length st) = Suc (length h)"
        using full Cons.prems h by simp
      have q': "history ?q = h @ [n]"
        using False full Cons.prems(1) h by (simp add: history_push_history)
      have l: "length (history ?q @ ?f) - nat (history_length st) = length ?f"
        by (simp add: q' b)
      have r: "length (history q @ filter (\<lambda>n. \<not> history_ignore n) (n # ns)) - nat (history_length st)
          = Suc (length ?f)"
        using False by (simp add: h b)
      have "history (foldl (\<lambda>q n. queues_history_push st n q) ?q ns) = drop (length ?f) (h @ n # ?f)"
        unfolding IH l by (simp add: q')
      moreover have "drop (length (history q @ filter (\<lambda>n. \<not> history_ignore n) (n # ns)) - nat (history_length st))
          (history q @ filter (\<lambda>n. \<not> history_ignore n) (n # ns)) = drop (length ?f) (h @ n # ?f)"
        unfolding r using False by (simp add: h)
      ultimately show ?thesis by simp
    next
      case notfull: False
      then show ?thesis using IH False by (simp add: history_push_history)
    qed
  qed
qed

text \<open>
  Claim C5. With a positive \<open>history_length\<close>: a sequence of \<open>queues_history_push\<close>
  calls that starts within the bound (in particular from \<open>queues_init\<close>) ends within
  the bound, and the history is then the newest entries of the old history followed by
  the pushed notifications that are not history-excluded; a push onto a full history
  frees the head and appends the new entry at the tail; a push below the bound only
  appends; a history-excluded notification is freed and the history is unchanged.
\<close>

theorem history_push_bounded:
  assumes "0 < history_length st"
  shows "(int (length (history q)) \<le> history_length st \<longrightarrow>
           int (length (history (foldl (\<lambda>q n. queues_history_push st n q) q ns))) \<le> history_length st
           \<and> history (foldl (\<lambda>q n. queues_history_push st n q) q ns) =
               drop (length (history q @ filter (\<lambda>n. \<not> history_ignore n) ns) - nat (history_length st))
                 (history q @ filter (\<lambda>n. \<not> history_ignore n) ns))
    \<and> int (length (history (foldl (\<lambda>q n. queues_history_push st n q) queues_init ns))) \<le> history_length st
    \<and> (\<not> history_ignore n \<and> history_length st \<le> int (length (history q)) \<longrightarrow>
          history (queues_history_push st n q) = tl (history q) @ [n]
          \<and> freed (queues_history_push st n q) = freed q @ [hd (history q)]
          \<and> history q \<noteq> [])
    \<and> (\<not> history_ignore n \<and> int (length (history q)) < history_length st \<longrightarrow>
          history (queues_history_push st n q) = history q @ [n]
          \<and> freed (queues_history_push st n q) = freed q)
    \<and> (history_ignore n \<longrightarrow>
          history (queues_history_push st n q) = history q
          \<and> freed (queues_history_push st n q) = freed q @ [n])"
proof -
  have seq: "int (length (history q')) \<le> history_length st \<Longrightarrow>
      int (length (history (foldl (\<lambda>q n. queues_history_push st n q) q' ns))) \<le> history_length st" for q'
    using assms by (simp add: history_push_seq_drop[OF assms])
  have "int (length (history queues_init)) \<le> history_length st"
    using assms by (simp add: queues_init_def)
  from seq[OF this] seq[of q] history_push_seq_drop[OF assms, of q ns] assms show ?thesis
    by (auto simp: history_push_history history_push_freed)
qed

theorem history_push_bounded_witness:
  "0 < history_length example_settings
   \<and> history (foldl (\<lambda>q n. queues_history_push example_settings n q) queues_init
        [example_note\<lparr>n_id := 2\<rparr>, example_note\<lparr>n_id := 3, history_ignore := True\<rparr>,
         example_note\<lparr>n_id := 4\<rparr>, example_note\<lparr>n_id := 5\<rparr>])
      = [example_note\<lparr>n_id := 4\<rparr>, example_note\<lparr>n_id := 5\<rparr>]"
proof -
  have h: "0 < history_length example_settings" by (simp add: example_settings_def)
  have l: "int (length (history queues_init)) \<le> history_length example_settings"
    by (simp add: example_settings_def queues_init_def)
  show ?thesis
    using h l history_push_bounded[OF h, of queues_init
        "[example_note\<lparr>n_id := 2\<rparr>, example_note\<lparr>n_id := 3, history_ignore := True\<rparr>,
         example_note\<lparr>n_id := 4\<rparr>, example_note\<lparr>n_id := 5\<rparr>]"]
    by (simp add: example_settings_def queues_init_def example_note_def)
qed

subsection \<open>Sorted order\<close>

lemma cmp_urgency_id_consistent: "cmp_consistent cmp_urgency_id"
  unfolding cmp_consistent_def cmp_urgency_id_def
  by (auto split: if_splits)

lemma queue_sorted_wrt:
  assumes "cmp_consistent cmp"
  shows "queue_sorted cmp xs \<longleftrightarrow> sorted_wrt (\<lambda>a b. cmp a b \<le> 0) xs"
proof -
  have "transp (\<lambda>a b. cmp a b \<le> 0)"
    using assms unfolding cmp_consistent_def transp_def by blast
  then show ?thesis
    unfolding queue_sorted_def by (rule successively_conv_sorted_wrt)
qed

lemma set_insert_sorted: "set (g_queue_insert_sorted xs d cmp) = insert d (set xs)"
  by (induction xs) auto

lemma insert_sorted_sorted:
  assumes "cmp_consistent cmp" "queue_sorted cmp xs"
  shows "queue_sorted cmp (g_queue_insert_sorted xs d cmp)"
proof -
  have anti: "\<And>a b. 0 \<le> cmp a b \<Longrightarrow> cmp b a \<le> 0"
   and trans: "\<And>a b c. cmp a b \<le> 0 \<Longrightarrow> cmp b c \<le> 0 \<Longrightarrow> cmp a c \<le> 0"
    using assms(1) unfolding cmp_consistent_def by blast+
  have "sorted_wrt (\<lambda>a b. cmp a b \<le> 0) xs \<Longrightarrow>
        sorted_wrt (\<lambda>a b. cmp a b \<le> 0) (g_queue_insert_sorted xs d cmp)"
  proof (induction xs)
    case Nil
    then show ?case by simp
  next
    case (Cons x xs)
    show ?case
    proof (cases "cmp x d < 0")
      case True
      then show ?thesis using Cons by (auto simp: set_insert_sorted)
    next
      case False
      then have "cmp d x \<le> 0" using anti[of x d] by simp
      then show ?thesis using Cons.prems False by (auto intro: trans)
    qed
  qed
  then show ?thesis using assms by (simp add: queue_sorted_wrt)
qed

lemma delete_link_sorted:
  assumes "cmp_consistent cmp" "queue_sorted cmp xs"
  shows "queue_sorted cmp (g_queue_delete_link xs i)"
proof -
  have "sorted_wrt (\<lambda>a b. cmp a b \<le> 0) (take i xs @ drop i xs)"
    using assms by (simp add: queue_sorted_wrt)
  then have "sorted_wrt (\<lambda>a b. cmp a b \<le> 0) (take i xs @ drop (Suc i) xs)"
    unfolding sorted_wrt_append
    by (metis in_set_dropD sorted_wrt_drop drop_drop plus_1_eq_Suc)
  then show ?thesis using assms(1) by (simp add: queue_sorted_wrt g_queue_delete_link_def)
qed


lemma queue_sorted_Nil: "queue_sorted cmp []"
  by (simp add: queue_sorted_def)

lemma update_pause_loop_sorted:
  assumes "cmp_consistent cmp" "queue_sorted cmp w"
  shows "queue_sorted cmp (update_pause_loop cmp d w)"
  using assms(2) by (induction d arbitrary: w) (simp_all add: insert_sorted_sorted[OF assms(1)])

lemma update_pushback_loop_sorted:
  assumes "cmp_consistent cmp"
  shows "(queue_sorted cmp (displayed q) \<longrightarrow> queue_sorted cmp (displayed (update_pushback_loop cmp iter q)))
       \<and> (queue_sorted cmp (waiting q) \<longrightarrow> queue_sorted cmp (waiting (update_pushback_loop cmp iter q)))"
  by (induction iter arbitrary: q)
     (simp_all add: insert_sorted_sorted[OF assms] delete_link_sorted[OF assms])

lemma update_promote_loop_sorted:
  assumes "cmp_consistent cmp"
  shows "(queue_sorted cmp (displayed q) \<longrightarrow> queue_sorted cmp (displayed (update_promote_loop cmp now fs iter q)))
       \<and> (queue_sorted cmp (waiting q) \<longrightarrow> queue_sorted cmp (waiting (update_promote_loop cmp now fs iter q)))"
proof (induction iter arbitrary: q)
  case Nil
  then show ?case by simp
next
  case (Cons n iter)
  show ?case
  proof (cases "displayed_limit q > 0 \<and> length (displayed q) \<ge> displayed_limit q")
    case True
    then show ?thesis by simp
  next
    case limit: False
    show ?thesis
    proof (cases "fs \<and> (fullscreen n = FS_DELAY \<or> fullscreen n = FS_PUSHBACK)")
      case True
      then show ?thesis using limit Cons.IH[of q] by simp
    next
      case False
      define n' where "n' = n\<lparr>start := now\<rparr>"
      define q1 where "q1 = (if \<not> redisplayed n' \<and> script n' \<noteq> None then notification_run_script n' q else q)"
      define q2 where "q2 = q1\<lparr>waiting :=
                  g_queue_delete_link (waiting q1) (length (waiting q1) - Suc (length iter)),
                displayed := g_queue_insert_sorted (displayed q1) n' cmp\<rparr>"
      have step: "update_promote_loop cmp now fs (n # iter) q = update_promote_loop cmp now fs iter q2"
        unfolding q2_def q1_def n'_def update_promote_loop.simps Let_def
        by (simp only: limit False if_False)
      have q1: "displayed q1 = displayed q" "waiting q1 = waiting q"
        by (simp_all add: q1_def notification_run_script_def)
      have "queue_sorted cmp (displayed q) \<longrightarrow> queue_sorted cmp (displayed q2)"
        by (simp add: q2_def q1 insert_sorted_sorted[OF assms])
      moreover have "queue_sorted cmp (waiting q) \<longrightarrow> queue_sorted cmp (waiting q2)"
        by (simp add: q2_def q1 delete_link_sorted[OF assms])
      ultimately show ?thesis unfolding step using Cons.IH[of q2] by blast
    qed
  qed
qed

lemma queues_update_sorted:
  assumes "cmp_consistent cmp"
  shows "(queue_sorted cmp (displayed q) \<longrightarrow> queue_sorted cmp (displayed (queues_update cmp now fs q)))
       \<and> (queue_sorted cmp (waiting q) \<longrightarrow> queue_sorted cmp (waiting (queues_update cmp now fs q)))"
proof (cases "pause_displayed q")
  case True
  then show ?thesis
    using update_pause_loop_sorted[OF assms, of "waiting q" "displayed q"]
    by (simp add: queues_update_def queue_sorted_Nil)
next
  case False
  let ?q = "if fs then update_pushback_loop cmp (displayed q) q else q"
  have 1: "(queue_sorted cmp (displayed q) \<longrightarrow> queue_sorted cmp (displayed ?q))
       \<and> (queue_sorted cmp (waiting q) \<longrightarrow> queue_sorted cmp (waiting ?q))"
    using update_pushback_loop_sorted[OF assms, of q "displayed q"] by simp
  have 2: "queues_update cmp now fs q = update_promote_loop cmp now fs (waiting ?q) ?q"
    using False by (simp add: queues_update_def Let_def)
  show ?thesis
    unfolding 2 using 1 update_promote_loop_sorted[OF assms, of ?q now fs "waiting ?q"] by blast
qed

lemma stack_displayed_None:
  "stack_displayed is_dup now n xs = None \<longleftrightarrow> (\<forall>x\<in>set xs. \<not> is_dup x n)"
  by (induction xs) (auto simp: Let_def)

lemma stack_waiting_None:
  "stack_waiting is_dup n xs = None \<longleftrightarrow> (\<forall>x\<in>set xs. \<not> is_dup x n)"
  by (induction xs) (auto simp: Let_def)

lemma replace_displayed_None:
  "replace_displayed now new xs = None \<longleftrightarrow> (\<forall>x\<in>set xs. n_id x \<noteq> n_id new)"
  by (induction xs) (auto simp: Let_def)

lemma replace_waiting_None:
  "replace_waiting new xs = None \<longleftrightarrow> (\<forall>x\<in>set xs. n_id x \<noteq> n_id new)"
  by (induction xs) (auto simp: Let_def)

lemma stack_duplicate_none:
  assumes "\<forall>x\<in>set (displayed q @ waiting q). \<not> is_dup x n"
  shows "queues_stack_duplicate is_dup now n q = (False, n, q)"
proof -
  have "stack_displayed is_dup now n (displayed q) = None"
       "stack_waiting is_dup n (waiting q) = None"
    using assms by (simp_all add: stack_displayed_None stack_waiting_None)
  then show ?thesis by (simp add: queues_stack_duplicate_def)
qed

lemma replace_id_none:
  assumes "\<forall>x\<in>set (displayed q @ waiting q). n_id x \<noteq> n_id new"
  shows "queues_notification_replace_id now new q = (False, new, q)"
proof -
  have "replace_displayed now new (displayed q) = None"
       "replace_waiting new (waiting q) = None"
    using assms by (simp_all add: replace_displayed_None replace_waiting_None)
  then show ?thesis by (simp add: queues_notification_replace_id_def)
qed

lemma insert_enqueue_sorted_insertion:
  assumes "sorted_insertion st is_dup n q"
  shows "insert_enqueue st cmp is_dup now n q =
     (if n_id n = 0
      then (n\<lparr>n_id := fresh_id q\<rparr>,
            q\<lparr>next_notification_id := fresh_id q,
              waiting := g_queue_insert_sorted (waiting q) (n\<lparr>n_id := fresh_id q\<rparr>) cmp\<rparr>)
      else (n, q\<lparr>waiting := g_queue_insert_sorted (waiting q) n cmp\<rparr>))"
proof (cases "n_id n = 0")
  case True
  show ?thesis
  proof (cases "stack_duplicates st")
    case False
    then show ?thesis using True by (simp add: insert_enqueue_def Let_def fresh_id_def)
  next
    case dup: True
    let ?q = "q\<lparr>next_notification_id := fresh_id q\<rparr>"
    have "\<forall>x\<in>set (displayed ?q @ waiting ?q). \<not> is_dup x (n\<lparr>n_id := fresh_id q\<rparr>)"
      using assms True dup by (simp add: sorted_insertion_def)
    from stack_duplicate_none[of ?q is_dup "n\<lparr>n_id := fresh_id q\<rparr>" now, OF this]
    show ?thesis using True dup by (simp add: insert_enqueue_def Let_def fresh_id_def)
  qed
next
  case False
  have "\<forall>x\<in>set (displayed q @ waiting q). n_id x \<noteq> n_id n"
    using assms False by (simp add: sorted_insertion_def)
  from replace_id_none[OF this]
  show ?thesis using False by (simp add: insert_enqueue_def)
qed

text \<open>
  Claim C2 as amended. For a consistent comparator: an insertion that reaches
  \<open>g_queue_insert_sorted\<close> (nothing stacked, nothing replaced) keeps a sorted waiting
  queue sorted and leaves displayed as it is; a discarded notification changes neither
  queue; \<open>queues_update\<close> keeps displayed sorted whatever the order of waiting, and
  keeps waiting sorted when it was sorted. Nothing is said of an insertion that swaps a
  slot's content in place, nor of the waiting queue after \<open>queues_history_pop\<close>.
\<close>

theorem sorted_order_kept:
  assumes "cmp_consistent cmp"
  shows "(sorted_insertion st is_dup n q \<and> queue_sorted cmp (waiting q) \<longrightarrow>
            queue_sorted cmp (waiting (snd (queues_notification_insert st cmp is_dup now n q)))
            \<and> displayed (snd (queues_notification_insert st cmp is_dup now n q)) = displayed q)
       \<and> (msg n = [] \<or> is_command n \<longrightarrow>
            waiting (snd (queues_notification_insert st cmp is_dup now n q)) = waiting q
            \<and> displayed (snd (queues_notification_insert st cmp is_dup now n q)) = displayed q)
       \<and> (queue_sorted cmp (displayed q) \<longrightarrow> queue_sorted cmp (displayed (queues_update cmp now fs q)))
       \<and> (queue_sorted cmp (waiting q) \<longrightarrow> queue_sorted cmp (waiting (queues_update cmp now fs q)))"
proof -
  have a: "queue_sorted cmp (waiting (snd (queues_notification_insert st cmp is_dup now n q)))
            \<and> displayed (snd (queues_notification_insert st cmp is_dup now n q)) = displayed q"
    if s: "sorted_insertion st is_dup n q" and w: "queue_sorted cmp (waiting q)"
  proof -
    have m: "msg n \<noteq> []" "\<not> is_command n" using s by (simp_all add: sorted_insertion_def)
    show ?thesis
      using m insert_sorted_sorted[OF assms w]
      by (simp add: queues_notification_insert_def is_command_def
          insert_enqueue_sorted_insertion[OF s] notification_print_def)
  qed
  have b: "waiting (snd (queues_notification_insert st cmp is_dup now n q)) = waiting q
            \<and> displayed (snd (queues_notification_insert st cmp is_dup now n q)) = displayed q"
    if "msg n = [] \<or> is_command n"
    using that by (auto simp: queues_notification_insert_def is_command_def notification_run_script_def)
  show ?thesis using a b queues_update_sorted[OF assms, of q now fs] by blast
qed

theorem sorted_order_kept_witness:
  "cmp_consistent cmp_urgency_id
   \<and> sorted_insertion example_settings same_text (example_note\<lparr>summary := ''chat''\<rparr>) two_waiting
   \<and> queue_sorted cmp_urgency_id (waiting two_waiting)
   \<and> queue_sorted cmp_urgency_id (displayed two_waiting)
   \<and> queue_sorted cmp_urgency_id
        (waiting (snd (queues_notification_insert example_settings cmp_urgency_id same_text 50
           (example_note\<lparr>summary := ''chat''\<rparr>) two_waiting)))
   \<and> queue_sorted cmp_urgency_id (displayed (queues_update cmp_urgency_id 50 False two_waiting))
   \<and> queue_sorted cmp_urgency_id (waiting (queues_update cmp_urgency_id 50 False two_waiting))"
proof -
  have c: "cmp_consistent cmp_urgency_id" by (rule cmp_urgency_id_consistent)
  have s: "sorted_insertion example_settings same_text (example_note\<lparr>summary := ''chat''\<rparr>) two_waiting"
    by (simp add: sorted_insertion_def is_command_def same_text_def two_waiting_def
        queues_init_def example_note_def example_settings_def)
  have w: "queue_sorted cmp_urgency_id (waiting two_waiting)"
    by (simp add: queue_sorted_def cmp_urgency_id_def two_waiting_def queues_init_def example_note_def)
  have d: "queue_sorted cmp_urgency_id (displayed two_waiting)"
    by (simp add: queue_sorted_def two_waiting_def queues_init_def)
  show ?thesis
    using c s w d
      sorted_order_kept[OF c, where st = example_settings and is_dup = same_text
        and n = "example_note\<lparr>summary := ''chat''\<rparr>" and q = two_waiting and now = 50 and fs = False]
    by blast
qed

text \<open>
  Claim C2 as stated fails where a slot's content is swapped in place and where
  \<open>queues_history_pop\<close> pushes at the head. Replacing the second of two waiting
  notifications by a more urgent one with the same identifier leaves it behind the less
  urgent first one. With the display full, the less urgent notification popped from the
  history stays at the head of waiting through \<open>queues_update\<close>.
\<close>

theorem sorted_order_broken_counterexample:
  "queue_sorted cmp_urgency_id (waiting two_waiting)
   \<and> queue_sorted cmp_urgency_id (displayed two_waiting)
   \<and> \<not> queue_sorted cmp_urgency_id
        (waiting (snd (queues_notification_insert example_settings cmp_urgency_id same_text 50
           (example_note\<lparr>n_id := 3, urgency := 2\<rparr>) two_waiting)))
   \<and> queue_sorted cmp_urgency_id (waiting full_display)
   \<and> queue_sorted cmp_urgency_id (displayed full_display)
   \<and> \<not> queue_sorted cmp_urgency_id
        (waiting (queues_update cmp_urgency_id 60 False
           (queues_history_pop example_settings full_display)))"
  by (simp add: queue_sorted_def cmp_urgency_id_def two_waiting_def full_display_def
      queues_init_def example_note_def example_settings_def queues_notification_insert_def
      insert_enqueue_def queues_notification_replace_id_def notification_free_def
      queues_update_def queues_history_pop_def Let_def)

subsection \<open>Replacing by identifier\<close>

lemma replace_displayed_Some:
  assumes "\<forall>x\<in>set pre. n_id x \<noteq> n_id new" "n_id old = n_id new"
  shows "replace_displayed now new (pre @ old # post) =
     Some (pre @ new\<lparr>start := now, dup_count := dup_count old\<rparr> # post,
           new\<lparr>start := now, dup_count := dup_count old\<rparr>, old)"
  using assms by (induction pre) (simp_all add: Let_def)

lemma replace_waiting_Some:
  assumes "\<forall>x\<in>set pre. n_id x \<noteq> n_id new" "n_id old = n_id new"
  shows "replace_waiting new (pre @ old # post) =
     Some (pre @ new\<lparr>dup_count := dup_count old\<rparr> # post, new\<lparr>dup_count := dup_count old\<rparr>, old)"
  using assms by (induction pre) (simp_all add: Let_def)

lemma replace_id_displayed:
  assumes "displayed q = pre @ old # post" "\<forall>x\<in>set pre. n_id x \<noteq> n_id new" "n_id old = n_id new"
  shows "queues_notification_replace_id now new q =
     (True, new\<lparr>start := now, dup_count := dup_count old\<rparr>,
      q\<lparr>displayed := pre @ new\<lparr>start := now, dup_count := dup_count old\<rparr> # post,
        scripts_run := scripts_run q @ [new\<lparr>start := now, dup_count := dup_count old\<rparr>],
        freed := freed q @ [old]\<rparr>)"
  by (simp add: queues_notification_replace_id_def assms(1) replace_displayed_Some[OF assms(2,3)]
      notification_free_def notification_run_script_def)

lemma replace_id_waiting:
  assumes "\<forall>x\<in>set (displayed q). n_id x \<noteq> n_id new"
    "waiting q = pre @ old # post" "\<forall>x\<in>set pre. n_id x \<noteq> n_id new" "n_id old = n_id new"
  shows "queues_notification_replace_id now new q =
     (True, new\<lparr>dup_count := dup_count old\<rparr>,
      q\<lparr>waiting := pre @ new\<lparr>dup_count := dup_count old\<rparr> # post, freed := freed q @ [old]\<rparr>)"
proof -
  have "replace_displayed now new (displayed q) = None"
    using assms(1) by (simp add: replace_displayed_None)
  then show ?thesis
    by (simp add: queues_notification_replace_id_def assms(2) replace_waiting_Some[OF assms(3,4)]
      notification_free_def)
qed

lemma insert_supplied_id:
  assumes "msg n \<noteq> []" "\<not> is_command n" "n_id n \<noteq> 0"
  shows "queues_notification_insert st cmp is_dup now n q =
     (case queues_notification_replace_id now n q of
        (found, n', q') \<Rightarrow>
          (n_id n',
           (if print_notifications st then notification_print n' else (\<lambda>q. q))
             (if found then q' else q'\<lparr>waiting := g_queue_insert_sorted (waiting q') n' cmp\<rparr>)))"
  using assms
  by (auto simp: queues_notification_insert_def insert_enqueue_def is_command_def split: prod.splits)

text \<open>
  Claim C3 as amended. A notification with a text that is no command and carries its own
  identifier: if the first displayed notification with that identifier is \<open>old\<close>, its
  slot gets the new notification with the start set to now and the duplicate counter of
  \<open>old\<close>, the script is run for it, \<open>old\<close> is freed and the scan reports a match; if
  there is none in displayed and the first in waiting is \<open>old\<close>, its slot gets the new
  notification with the duplicate counter of \<open>old\<close> and its own start, no script is
  run, \<open>old\<close> is freed and the scan reports a match; if neither queue has the
  identifier, the scan reports no match and the notification is inserted into waiting by
  \<open>g_queue_insert_sorted\<close>. The insertion returns the identifier in each case.
\<close>

theorem replace_id_swaps:
  assumes "msg new \<noteq> []" "\<not> is_command new" "n_id new \<noteq> 0"
  shows
   "(displayed q = pre @ old # post \<and> (\<forall>x\<in>set pre. n_id x \<noteq> n_id new) \<and> n_id old = n_id new \<longrightarrow>
      (let new' = new\<lparr>start := now, dup_count := dup_count old\<rparr>;
           q' = q\<lparr>displayed := pre @ new' # post, scripts_run := scripts_run q @ [new'],
                  freed := freed q @ [old]\<rparr>
       in queues_notification_replace_id now new q = (True, new', q')
          \<and> queues_notification_insert st cmp is_dup now new q =
              (n_id new, if print_notifications st then notification_print new' q' else q')))
   \<and> ((\<forall>x\<in>set (displayed q). n_id x \<noteq> n_id new) \<and> waiting q = pre @ old # post
        \<and> (\<forall>x\<in>set pre. n_id x \<noteq> n_id new) \<and> n_id old = n_id new \<longrightarrow>
      (let new' = new\<lparr>dup_count := dup_count old\<rparr>;
           q' = q\<lparr>waiting := pre @ new' # post, freed := freed q @ [old]\<rparr>
       in queues_notification_replace_id now new q = (True, new', q')
          \<and> queues_notification_insert st cmp is_dup now new q =
              (n_id new, if print_notifications st then notification_print new' q' else q')))
   \<and> ((\<forall>x\<in>set (displayed q @ waiting q). n_id x \<noteq> n_id new) \<longrightarrow>
      (let q' = q\<lparr>waiting := g_queue_insert_sorted (waiting q) new cmp\<rparr>
       in queues_notification_replace_id now new q = (False, new, q)
          \<and> queues_notification_insert st cmp is_dup now new q =
              (n_id new, if print_notifications st then notification_print new q' else q')))"
proof (intro conjI impI)
  assume a: "displayed q = pre @ old # post \<and> (\<forall>x\<in>set pre. n_id x \<noteq> n_id new) \<and> n_id old = n_id new"
  then show "let new' = new\<lparr>start := now, dup_count := dup_count old\<rparr>;
           q' = q\<lparr>displayed := pre @ new' # post, scripts_run := scripts_run q @ [new'],
                  freed := freed q @ [old]\<rparr>
       in queues_notification_replace_id now new q = (True, new', q')
          \<and> queues_notification_insert st cmp is_dup now new q =
              (n_id new, if print_notifications st then notification_print new' q' else q')"
    using replace_id_displayed[of q pre old post new now]
    by (simp add: Let_def insert_supplied_id[OF assms])
next
  assume a: "(\<forall>x\<in>set (displayed q). n_id x \<noteq> n_id new) \<and> waiting q = pre @ old # post
        \<and> (\<forall>x\<in>set pre. n_id x \<noteq> n_id new) \<and> n_id old = n_id new"
  then show "let new' = new\<lparr>dup_count := dup_count old\<rparr>;
           q' = q\<lparr>waiting := pre @ new' # post, freed := freed q @ [old]\<rparr>
       in queues_notification_replace_id now new q = (True, new', q')
          \<and> queues_notification_insert st cmp is_dup now new q =
              (n_id new, if print_notifications st then notification_print new' q' else q')"
    using replace_id_waiting[of q new pre old post now]
    by (simp add: Let_def insert_supplied_id[OF assms])
next
  assume a: "\<forall>x\<in>set (displayed q @ waiting q). n_id x \<noteq> n_id new"
  show "let q' = q\<lparr>waiting := g_queue_insert_sorted (waiting q) new cmp\<rparr>
       in queues_notification_replace_id now new q = (False, new, q)
          \<and> queues_notification_insert st cmp is_dup now new q =
              (n_id new, if print_notifications st then notification_print new q' else q')"
    using replace_id_none[OF a, of now]
    by (simp add: Let_def insert_supplied_id[OF assms])
qed

theorem replace_id_swaps_witness:
  "msg (example_note\<lparr>n_id := 2, body := ''new''\<rparr>) \<noteq> []
   \<and> \<not> is_command (example_note\<lparr>n_id := 2, body := ''new''\<rparr>)
   \<and> n_id (example_note\<lparr>n_id := 2, body := ''new''\<rparr>) \<noteq> 0
   \<and> displayed one_each = [] @ example_note\<lparr>n_id := 2, start := 10, dup_count := 4\<rparr> # []
   \<and> queues_notification_insert example_settings cmp_urgency_id same_text 50
        (example_note\<lparr>n_id := 2, body := ''new''\<rparr>) one_each =
      (2, one_each\<lparr>displayed := [example_note\<lparr>n_id := 2, body := ''new'', start := 50, dup_count := 4\<rparr>],
            scripts_run := [example_note\<lparr>n_id := 2, body := ''new'', start := 50, dup_count := 4\<rparr>],
            freed := [example_note\<lparr>n_id := 2, start := 10, dup_count := 4\<rparr>]\<rparr>)"
proof -
  have m: "msg (example_note\<lparr>n_id := 2, body := ''new''\<rparr>) \<noteq> []"
    and c: "\<not> is_command (example_note\<lparr>n_id := 2, body := ''new''\<rparr>)"
    and i: "n_id (example_note\<lparr>n_id := 2, body := ''new''\<rparr>) \<noteq> 0"
    by (simp_all add: example_note_def is_command_def)
  have d: "displayed one_each = [] @ example_note\<lparr>n_id := 2, start := 10, dup_count := 4\<rparr> # []"
    by (simp add: one_each_def)
  show ?thesis
    using m c i d
      replace_id_swaps[OF m c i, where q = one_each and pre = "[]" and post = "[]"
        and old = "example_note\<lparr>n_id := 2, start := 10, dup_count := 4\<rparr>"
        and now = 50 and st = example_settings and cmp = cmp_urgency_id and is_dup = same_text]
    by (simp add: Let_def example_settings_def one_each_def queues_init_def example_note_def)
qed

text \<open>
  Claim C3 as stated has the script run on every match. A match in waiting runs none:
  replacing the waiting notification 3 by one that carries a script leaves the log of
  script runs empty.
\<close>

theorem replace_waiting_no_script_counterexample:
  "fst (queues_notification_replace_id 50 (example_note\<lparr>n_id := 3, script := Some ''notify.sh''\<rparr>) one_each)
   \<and> waiting (snd (queues_notification_insert example_settings cmp_urgency_id same_text 50
        (example_note\<lparr>n_id := 3, script := Some ''notify.sh''\<rparr>) one_each))
      = [example_note\<lparr>n_id := 3, script := Some ''notify.sh'', dup_count := 7\<rparr>]
   \<and> scripts_run (snd (queues_notification_insert example_settings cmp_urgency_id same_text 50
        (example_note\<lparr>n_id := 3, script := Some ''notify.sh''\<rparr>) one_each)) = []"
  by (simp add: queues_notification_insert_def insert_enqueue_def queues_notification_replace_id_def
      notification_free_def Let_def example_settings_def one_each_def queues_init_def example_note_def)

subsection \<open>Stacking duplicates\<close>

lemma stack_orig_id: "stack_orig orig (n\<lparr>n_id := i\<rparr>) = stack_orig orig n"
  by (simp add: stack_orig_def)

lemma stack_displayed_Some:
  assumes "\<forall>x\<in>set pre. \<not> is_dup x n" "is_dup orig n"
  shows "stack_displayed is_dup now n (pre @ orig # post) =
     Some (pre @ n\<lparr>start := now, dup_count := dup_count (stack_orig orig n)\<rparr> # post,
           n\<lparr>start := now, dup_count := dup_count (stack_orig orig n)\<rparr>, stack_orig orig n)"
  using assms by (induction pre) (simp_all add: Let_def)

lemma stack_waiting_Some:
  assumes "\<forall>x\<in>set pre. \<not> is_dup x n" "is_dup orig n"
  shows "stack_waiting is_dup n (pre @ orig # post) =
     Some (pre @ n\<lparr>dup_count := dup_count (stack_orig orig n)\<rparr> # post,
           n\<lparr>dup_count := dup_count (stack_orig orig n)\<rparr>, stack_orig orig n)"
  using assms by (induction pre) (simp_all add: Let_def)

lemma stack_duplicate_displayed:
  assumes "displayed q = pre @ orig # post" "\<forall>x\<in>set pre. \<not> is_dup x n" "is_dup orig n"
  shows "queues_stack_duplicate is_dup now n q =
     (True, n\<lparr>start := now, dup_count := dup_count (stack_orig orig n)\<rparr>,
      q\<lparr>displayed := pre @ n\<lparr>start := now, dup_count := dup_count (stack_orig orig n)\<rparr> # post,
        signals_closed := signals_closed q @ [(stack_orig orig n, REASON_LITERAL 1)],
        freed := freed q @ [stack_orig orig n]\<rparr>)"
  by (simp add: queues_stack_duplicate_def assms(1) stack_displayed_Some[of pre is_dup n orig, OF assms(2,3)]
      notification_free_def signal_notification_closed_def)

lemma stack_duplicate_waiting:
  assumes "\<forall>x\<in>set (displayed q). \<not> is_dup x n"
    "waiting q = pre @ orig # post" "\<forall>x\<in>set pre. \<not> is_dup x n" "is_dup orig n"
  shows "queues_stack_duplicate is_dup now n q =
     (True, n\<lparr>dup_count := dup_count (stack_orig orig n)\<rparr>,
      q\<lparr>waiting := pre @ n\<lparr>dup_count := dup_count (stack_orig orig n)\<rparr> # post,
        signals_closed := signals_closed q @ [(stack_orig orig n, REASON_LITERAL 1)],
        freed := freed q @ [stack_orig orig n]\<rparr>)"
proof -
  have "stack_displayed is_dup now n (displayed q) = None"
    using assms(1) by (simp add: stack_displayed_None)
  then show ?thesis
    by (simp add: queues_stack_duplicate_def assms(2) stack_waiting_Some[of pre is_dup n orig, OF assms(3,4)]
      notification_free_def signal_notification_closed_def)
qed

lemma insert_fresh_stacking:
  assumes "msg n \<noteq> []" "\<not> is_command n" "n_id n = 0" "stack_duplicates st"
  shows "queues_notification_insert st cmp is_dup now n q =
     (case queues_stack_duplicate is_dup now (n\<lparr>n_id := fresh_id q\<rparr>)
             (q\<lparr>next_notification_id := fresh_id q\<rparr>) of
        (stacked, n', q') \<Rightarrow>
          (n_id n',
           (if print_notifications st then notification_print n' else (\<lambda>q. q))
             (if stacked then q' else q'\<lparr>waiting := g_queue_insert_sorted (waiting q') n' cmp\<rparr>)))"
  using assms
  by (auto simp: queues_notification_insert_def insert_enqueue_def is_command_def fresh_id_def
      Let_def split: prod.splits)

lemma insert_stacks_displayed:
  assumes "msg n \<noteq> []" "\<not> is_command n" "n_id n = 0" "stack_duplicates st"
    and "displayed q = pre @ orig # post"
    and "\<forall>x\<in>set pre. \<not> is_dup x (n\<lparr>n_id := fresh_id q\<rparr>)"
    and "is_dup orig (n\<lparr>n_id := fresh_id q\<rparr>)"
  shows "queues_notification_insert st cmp is_dup now n q =
    (fresh_id q,
     (if print_notifications st
      then notification_print (n\<lparr>n_id := fresh_id q, start := now, dup_count := dup_count (stack_orig orig n)\<rparr>)
      else (\<lambda>q. q))
       (q\<lparr>next_notification_id := fresh_id q,
          displayed := pre @ n\<lparr>n_id := fresh_id q, start := now,
                                dup_count := dup_count (stack_orig orig n)\<rparr> # post,
          signals_closed := signals_closed q @ [(stack_orig orig n, REASON_LITERAL 1)],
          freed := freed q @ [stack_orig orig n]\<rparr>))"
proof -
  have "queues_stack_duplicate is_dup now (n\<lparr>n_id := fresh_id q\<rparr>) (q\<lparr>next_notification_id := fresh_id q\<rparr>) =
     (True, n\<lparr>n_id := fresh_id q, start := now, dup_count := dup_count (stack_orig orig n)\<rparr>,
      q\<lparr>next_notification_id := fresh_id q,
        displayed := pre @ n\<lparr>n_id := fresh_id q, start := now,
                              dup_count := dup_count (stack_orig orig n)\<rparr> # post,
        signals_closed := signals_closed q @ [(stack_orig orig n, REASON_LITERAL 1)],
        freed := freed q @ [stack_orig orig n]\<rparr>)"
    using stack_duplicate_displayed[of "q\<lparr>next_notification_id := fresh_id q\<rparr>" pre orig post is_dup
        "n\<lparr>n_id := fresh_id q\<rparr>" now] assms(5-7)
    by (simp add: stack_orig_id)
  then show ?thesis
    by (simp add: insert_fresh_stacking[OF assms(1-4)])
qed

lemma insert_stacks_waiting:
  assumes "msg n \<noteq> []" "\<not> is_command n" "n_id n = 0" "stack_duplicates st"
    and "\<forall>x\<in>set (displayed q). \<not> is_dup x (n\<lparr>n_id := fresh_id q\<rparr>)"
    and "waiting q = pre @ orig # post"
    and "\<forall>x\<in>set pre. \<not> is_dup x (n\<lparr>n_id := fresh_id q\<rparr>)"
    and "is_dup orig (n\<lparr>n_id := fresh_id q\<rparr>)"
  shows "queues_notification_insert st cmp is_dup now n q =
    (fresh_id q,
     (if print_notifications st
      then notification_print (n\<lparr>n_id := fresh_id q, dup_count := dup_count (stack_orig orig n)\<rparr>)
      else (\<lambda>q. q))
       (q\<lparr>next_notification_id := fresh_id q,
          waiting := pre @ n\<lparr>n_id := fresh_id q, dup_count := dup_count (stack_orig orig n)\<rparr> # post,
          signals_closed := signals_closed q @ [(stack_orig orig n, REASON_LITERAL 1)],
          freed := freed q @ [stack_orig orig n]\<rparr>))"
proof -
  have "queues_stack_duplicate is_dup now (n\<lparr>n_id := fresh_id q\<rparr>) (q\<lparr>next_notification_id := fresh_id q\<rparr>) =
     (True, n\<lparr>n_id := fresh_id q, dup_count := dup_count (stack_orig orig n)\<rparr>,
      q\<lparr>next_notification_id := fresh_id q,
        waiting := pre @ n\<lparr>n_id := fresh_id q, dup_count := dup_count (stack_orig orig n)\<rparr> # post,
        signals_closed := signals_closed q @ [(stack_orig orig n, REASON_LITERAL 1)],
        freed := freed q @ [stack_orig orig n]\<rparr>)"
    using stack_duplicate_waiting[of "q\<lparr>next_notification_id := fresh_id q\<rparr>" is_dup
        "n\<lparr>n_id := fresh_id q\<rparr>" pre orig post now] assms(5-8)
    by (simp add: stack_orig_id)
  then show ?thesis
    by (simp add: insert_fresh_stacking[OF assms(1-4)])
qed

lemma int_wrap_id: "is_int x \<Longrightarrow> int_wrap x = x"
  by (simp add: is_int_def int_wrap_def)

lemma fresh_id_nonzero:
  assumes "0 < next_notification_id q" "is_int (next_notification_id q)"
  shows "fresh_id q \<noteq> 0"
proof (cases "next_notification_id q + 1 < 2 ^ 31")
  case True
  then have "is_int (next_notification_id q + 1)" using assms by (simp add: is_int_def)
  then show ?thesis using assms(1) by (simp add: fresh_id_def int_wrap_id)
next
  case False
  then have "next_notification_id q + 1 = 2 ^ 31" using assms(2) by (simp add: is_int_def)
  then show ?thesis by (simp add: fresh_id_def int_wrap_def)
qed

lemma stack_displayed_result:
  "stack_displayed is_dup now n xs = Some (ys, n', orig') \<Longrightarrow>
     n' \<in> set ys \<and> inserted_as n' n \<and> n_id n' = n_id n"
  by (induction xs arbitrary: ys) (auto simp: Let_def inserted_as_def split: if_splits)



lemma stack_waiting_result:
  "stack_waiting is_dup n xs = Some (ys, n', orig') \<Longrightarrow>
     n' \<in> set ys \<and> inserted_as n' n \<and> n_id n' = n_id n"
  by (induction xs arbitrary: ys) (auto simp: Let_def inserted_as_def split: if_splits)

lemma replace_displayed_result:
  "replace_displayed now n xs = Some (ys, n', old) \<Longrightarrow>
     n' \<in> set ys \<and> inserted_as n' n \<and> n_id n' = n_id n"
  by (induction xs arbitrary: ys) (auto simp: Let_def inserted_as_def split: if_splits)

lemma replace_waiting_result:
  "replace_waiting n xs = Some (ys, n', old) \<Longrightarrow>
     n' \<in> set ys \<and> inserted_as n' n \<and> n_id n' = n_id n"
  by (induction xs arbitrary: ys) (auto simp: Let_def inserted_as_def split: if_splits)

lemma stack_duplicate_result:
  assumes "queues_stack_duplicate is_dup now n q = (b, n', q')"
  shows "(if b then n' \<in> set (waiting q' @ displayed q') else n' = n \<and> q' = q)
       \<and> inserted_as n' n \<and> n_id n' = n_id n"
  using assms stack_displayed_result[of is_dup now n "displayed q"]
    stack_waiting_result[of is_dup n "waiting q"]
  by (auto simp: queues_stack_duplicate_def notification_free_def signal_notification_closed_def
      inserted_as_def split: option.splits)

lemma replace_id_result:
  assumes "queues_notification_replace_id now n q = (b, n', q')"
  shows "(if b then n' \<in> set (waiting q' @ displayed q') else n' = n \<and> q' = q)
       \<and> inserted_as n' n \<and> n_id n' = n_id n"
  using assms replace_displayed_result[of now n "displayed q"]
    replace_waiting_result[of n "waiting q"]
  by (auto simp: queues_notification_replace_id_def notification_free_def notification_run_script_def
      inserted_as_def split: option.splits)

lemma insert_enqueue_result:
  assumes "insert_enqueue st cmp is_dup now n q = (n', q')"
  shows "n' \<in> set (waiting q' @ displayed q')
       \<and> n_id n' = (if n_id n = 0 then fresh_id q else n_id n)
       \<and> inserted_as n' n"
proof (cases "n_id n = 0")
  case True
  let ?n = "n\<lparr>n_id := fresh_id q\<rparr>"
  let ?q = "q\<lparr>next_notification_id := fresh_id q\<rparr>"
  show ?thesis
  proof (cases "stack_duplicates st")
    case False
    then show ?thesis using assms True
      by (auto simp: insert_enqueue_def Let_def fresh_id_def set_insert_sorted inserted_as_def)
  next
    case dup: True
    obtain b n1 q1 where r: "queues_stack_duplicate is_dup now ?n ?q = (b, n1, q1)"
      by (cases "queues_stack_duplicate is_dup now ?n ?q") auto
    have e: "(n', q') = (if \<not> b then (n1, q1\<lparr>waiting := g_queue_insert_sorted (waiting q1) n1 cmp\<rparr>) else (n1, q1))"
      using assms True dup r by (simp add: insert_enqueue_def Let_def fresh_id_def)
    from stack_duplicate_result[OF r] e show ?thesis
      using True by (cases b) (auto simp: set_insert_sorted inserted_as_def)
  qed
next
  case False
  obtain b n1 q1 where r: "queues_notification_replace_id now n q = (b, n1, q1)"
    by (cases "queues_notification_replace_id now n q") auto
  have e: "(n', q') = (if \<not> b then (n1, q1\<lparr>waiting := g_queue_insert_sorted (waiting q1) n1 cmp\<rparr>) else (n1, q1))"
    using assms False r by (simp add: insert_enqueue_def)
  from replace_id_result[OF r] e show ?thesis
    using False by (cases b) (auto simp: set_insert_sorted inserted_as_def)
qed




lemma close_id_absent:
  assumes "\<forall>x\<in>set (displayed q @ waiting q). n_id x \<noteq> i"
  shows "queues_notification_close_id st i r q = Inr q"
proof -
  have "find (\<lambda>n. n_id n = i) (displayed q) = None" "find (\<lambda>n. n_id n = i) (waiting q) = None"
    using assms by (auto simp: find_None_iff)
  then show ?thesis
    by (simp add: queues_notification_close_id_def close_target_def)
qed

lemma find_Some_mem: "find P xs = Some x \<Longrightarrow> x \<in> set xs \<and> P x"
  by (induction xs) (auto split: if_splits)

lemma length_remove1_less: "x \<in> set xs \<Longrightarrow> length (remove1 x xs) < length xs"
  by (induction xs) auto

lemma close_target_keeps_queues:
  "displayed (close_target st t r q) = displayed q \<and> waiting (close_target st t r q) = waiting q"
  by (cases t; cases "history q")
     (simp_all add: close_target_def queues_history_push_def signal_notification_closed_def
        notification_free_def Let_def)

lemma close_id_noop_iff:
  "queues_notification_close_id st i r q = Inr q \<longleftrightarrow>
     (\<forall>x\<in>set (displayed q @ waiting q). n_id x \<noteq> i)"
proof
  assume "\<forall>x\<in>set (displayed q @ waiting q). n_id x \<noteq> i"
  then show "queues_notification_close_id st i r q = Inr q" by (rule close_id_absent)
next
  assume a: "queues_notification_close_id st i r q = Inr q"
  show "\<forall>x\<in>set (displayed q @ waiting q). n_id x \<noteq> i"
  proof (rule ccontr)
    assume "\<not> (\<forall>x\<in>set (displayed q @ waiting q). n_id x \<noteq> i)"
    then have ex: "find (\<lambda>n. n_id n = i) (displayed q) \<noteq> None \<or> find (\<lambda>n. n_id n = i) (waiting q) \<noteq> None"
      by (auto simp: find_None_iff)
    show False
    proof (cases "find (\<lambda>n. n_id n = i) (displayed q)")
      case (Some n)
      then have n: "n \<in> set (displayed q)" using find_Some_mem by fastforce
      let ?q1 = "q\<lparr>displayed := remove1 n (displayed q)\<rparr>"
      have l: "length (displayed ?q1) < length (displayed q)"
        using n by (simp add: length_remove1_less)
      show False
      proof (cases "find (\<lambda>n. n_id n = i) (waiting q)")
        case None
        then have "queues_notification_close_id st i r q = Inr (close_target st (Some n) r ?q1)"
          using Some by (simp add: queues_notification_close_id_def)
        then have "displayed q = displayed (close_target st (Some n) r ?q1)" using a by simp
        then show False using l by (simp add: close_target_keeps_queues)
      next
        case (Some m)
        then have "queues_notification_close_id st i r q = Inl AssertionFailed"
          using \<open>find (\<lambda>n. n_id n = i) (displayed q) = Some n\<close>
          by (simp add: queues_notification_close_id_def)
        then show False using a by simp
      qed
    next
      case None
      then obtain m where m: "find (\<lambda>n. n_id n = i) (waiting q) = Some m" using ex by auto
      then have mm: "m \<in> set (waiting q)" using find_Some_mem by fastforce
      let ?q1 = "q\<lparr>waiting := remove1 m (waiting q)\<rparr>"
      have l: "length (waiting ?q1) < length (waiting q)"
        using mm by (simp add: length_remove1_less)
      have "queues_notification_close_id st i r q = Inr (close_target st (Some m) r ?q1)"
        using None m by (simp add: queues_notification_close_id_def)
      then have "waiting q = waiting (close_target st (Some m) r ?q1)" using a by simp
      then show False using l by (simp add: close_target_keeps_queues)
    qed
  qed
qed

text \<open>
  Claim C10 as amended. With stacking enabled, a fresh notification with a text that is
  no command whose first duplicate (as seen with the new identifier already assigned) is
  \<open>orig\<close>: the insertion returns the identifier drawn from the counter, the counter
  has advanced, and the slot of \<open>orig\<close> carries the new identifier. No entry carries
  the identifier of \<open>orig\<close> afterwards, and closing that identifier changes nothing,
  exactly when the drawn identifier differs from it and no other entry of the two queues
  carried it.
\<close>

theorem fresh_id_drawn_before_stacking:
  assumes "msg n \<noteq> []" "\<not> is_command n" "n_id n = 0" "stack_duplicates st"
    and "is_dup orig (n\<lparr>n_id := fresh_id q\<rparr>)"
  shows
   "(displayed q = pre @ orig # post \<and> (\<forall>x\<in>set pre. \<not> is_dup x (n\<lparr>n_id := fresh_id q\<rparr>)) \<longrightarrow>
      (let res = queues_notification_insert st cmp is_dup now n q; q' = snd res
       in fst res = fresh_id q \<and> next_notification_id q' = fresh_id q
          \<and> map n_id (displayed q') = map n_id pre @ fresh_id q # map n_id post
          \<and> waiting q' = waiting q
          \<and> ((\<forall>x\<in>set (displayed q' @ waiting q'). n_id x \<noteq> n_id orig) \<longleftrightarrow>
               fresh_id q \<noteq> n_id orig \<and> (\<forall>x\<in>set (pre @ post @ waiting q). n_id x \<noteq> n_id orig))
          \<and> (queues_notification_close_id st (n_id orig) r q' = Inr q' \<longleftrightarrow>
               fresh_id q \<noteq> n_id orig \<and> (\<forall>x\<in>set (pre @ post @ waiting q). n_id x \<noteq> n_id orig))))
    \<and> ((\<forall>x\<in>set (displayed q). \<not> is_dup x (n\<lparr>n_id := fresh_id q\<rparr>))
       \<and> waiting q = pre @ orig # post \<and> (\<forall>x\<in>set pre. \<not> is_dup x (n\<lparr>n_id := fresh_id q\<rparr>)) \<longrightarrow>
      (let res = queues_notification_insert st cmp is_dup now n q; q' = snd res
       in fst res = fresh_id q \<and> next_notification_id q' = fresh_id q
          \<and> map n_id (waiting q') = map n_id pre @ fresh_id q # map n_id post
          \<and> displayed q' = displayed q
          \<and> ((\<forall>x\<in>set (displayed q' @ waiting q'). n_id x \<noteq> n_id orig) \<longleftrightarrow>
               fresh_id q \<noteq> n_id orig \<and> (\<forall>x\<in>set (displayed q @ pre @ post). n_id x \<noteq> n_id orig))
          \<and> (queues_notification_close_id st (n_id orig) r q' = Inr q' \<longleftrightarrow>
               fresh_id q \<noteq> n_id orig \<and> (\<forall>x\<in>set (displayed q @ pre @ post). n_id x \<noteq> n_id orig))))"
proof (intro conjI impI)
  assume a: "displayed q = pre @ orig # post \<and> (\<forall>x\<in>set pre. \<not> is_dup x (n\<lparr>n_id := fresh_id q\<rparr>))"
  let ?res = "queues_notification_insert st cmp is_dup now n q"
  have r: "fst ?res = fresh_id q" "next_notification_id (snd ?res) = fresh_id q"
    "displayed (snd ?res) = pre @ n\<lparr>n_id := fresh_id q, start := now,
        dup_count := dup_count (stack_orig orig n)\<rparr> # post"
    "waiting (snd ?res) = waiting q"
    using insert_stacks_displayed[OF assms(1-4), of q pre orig post is_dup cmp now] a assms(5)
    by (simp_all add: notification_print_def)
  have u: "(\<forall>x\<in>set (displayed (snd ?res) @ waiting (snd ?res)). n_id x \<noteq> n_id orig) \<longleftrightarrow>
      fresh_id q \<noteq> n_id orig \<and> (\<forall>x\<in>set (pre @ post @ waiting q). n_id x \<noteq> n_id orig)"
    by (auto simp: r)
  show "let res = queues_notification_insert st cmp is_dup now n q; q' = snd res
       in fst res = fresh_id q \<and> next_notification_id q' = fresh_id q
          \<and> map n_id (displayed q') = map n_id pre @ fresh_id q # map n_id post
          \<and> waiting q' = waiting q
          \<and> ((\<forall>x\<in>set (displayed q' @ waiting q'). n_id x \<noteq> n_id orig) \<longleftrightarrow>
               fresh_id q \<noteq> n_id orig \<and> (\<forall>x\<in>set (pre @ post @ waiting q). n_id x \<noteq> n_id orig))
          \<and> (queues_notification_close_id st (n_id orig) r q' = Inr q' \<longleftrightarrow>
               fresh_id q \<noteq> n_id orig \<and> (\<forall>x\<in>set (pre @ post @ waiting q). n_id x \<noteq> n_id orig))"
    unfolding Let_def close_id_noop_iff u by (simp add: r)
next
  assume a: "(\<forall>x\<in>set (displayed q). \<not> is_dup x (n\<lparr>n_id := fresh_id q\<rparr>))
       \<and> waiting q = pre @ orig # post \<and> (\<forall>x\<in>set pre. \<not> is_dup x (n\<lparr>n_id := fresh_id q\<rparr>))"
  let ?res = "queues_notification_insert st cmp is_dup now n q"
  have r: "fst ?res = fresh_id q" "next_notification_id (snd ?res) = fresh_id q"
    "waiting (snd ?res) = pre @ n\<lparr>n_id := fresh_id q,
        dup_count := dup_count (stack_orig orig n)\<rparr> # post"
    "displayed (snd ?res) = displayed q"
    using insert_stacks_waiting[OF assms(1-4), of q is_dup pre orig post cmp now] a assms(5)
    by (simp_all add: notification_print_def)
  have u: "(\<forall>x\<in>set (displayed (snd ?res) @ waiting (snd ?res)). n_id x \<noteq> n_id orig) \<longleftrightarrow>
      fresh_id q \<noteq> n_id orig \<and> (\<forall>x\<in>set (displayed q @ pre @ post). n_id x \<noteq> n_id orig)"
    by (auto simp: r)
  show "let res = queues_notification_insert st cmp is_dup now n q; q' = snd res
       in fst res = fresh_id q \<and> next_notification_id q' = fresh_id q
          \<and> map n_id (waiting q') = map n_id pre @ fresh_id q # map n_id post
          \<and> displayed q' = displayed q
          \<and> ((\<forall>x\<in>set (displayed q' @ waiting q'). n_id x \<noteq> n_id orig) \<longleftrightarrow>
               fresh_id q \<noteq> n_id orig \<and> (\<forall>x\<in>set (displayed q @ pre @ post). n_id x \<noteq> n_id orig))
          \<and> (queues_notification_close_id st (n_id orig) r q' = Inr q' \<longleftrightarrow>
               fresh_id q \<noteq> n_id orig \<and> (\<forall>x\<in>set (displayed q @ pre @ post). n_id x \<noteq> n_id orig))"
    unfolding Let_def close_id_noop_iff u by (simp add: r)
qed

theorem fresh_id_drawn_before_stacking_witness:
  "msg example_note \<noteq> [] \<and> \<not> is_command example_note \<and> n_id example_note = 0
   \<and> stack_duplicates example_settings
   \<and> same_text (example_note\<lparr>n_id := 2, start := 10, dup_count := 4\<rparr>)
        (example_note\<lparr>n_id := fresh_id one_each\<rparr>)
   \<and> displayed one_each = [] @ example_note\<lparr>n_id := 2, start := 10, dup_count := 4\<rparr> # []
   \<and> fst (queues_notification_insert example_settings cmp_urgency_id same_text 50
        example_note one_each) = 4
   \<and> map n_id (displayed (snd (queues_notification_insert example_settings cmp_urgency_id same_text 50
        example_note one_each))) = [4]
   \<and> queues_notification_close_id example_settings 2 REASON_USER
        (snd (queues_notification_insert example_settings cmp_urgency_id same_text 50
          example_note one_each))
      = Inr (snd (queues_notification_insert example_settings cmp_urgency_id same_text 50
          example_note one_each))"
proof -
  have 1: "msg example_note \<noteq> []" and 2: "\<not> is_command example_note" and 3: "n_id example_note = 0"
    and 4: "stack_duplicates example_settings"
    and 5: "same_text (example_note\<lparr>n_id := 2, start := 10, dup_count := 4\<rparr>)
        (example_note\<lparr>n_id := fresh_id one_each\<rparr>)"
    by (simp_all add: example_note_def is_command_def example_settings_def same_text_def)
  have f: "fresh_id one_each = 4"
    by (simp add: fresh_id_def one_each_def int_wrap_def)
  have d: "displayed one_each = [] @ example_note\<lparr>n_id := 2, start := 10, dup_count := 4\<rparr> # []"
    by (simp add: one_each_def)
  have w: "\<forall>x\<in>set ([] @ [] @ waiting one_each).
      n_id x \<noteq> n_id (example_note\<lparr>n_id := 2, start := 10, dup_count := 4\<rparr>)"
    by (simp add: one_each_def)
  show ?thesis
    using 1 2 3 4 5 d w
      fresh_id_drawn_before_stacking[where n = example_note and st = example_settings
        and is_dup = same_text and q = one_each
        and orig = "example_note\<lparr>n_id := 2, start := 10, dup_count := 4\<rparr>"
        and pre = "[]" and post = "[]" and cmp = cmp_urgency_id and now = 50
        and r = REASON_USER, OF 1 2 3 4 5]
    by (simp add: Let_def f)
qed

text \<open>
  Claim C10 as stated has the old identifier dead after every stacking. A notification
  that brings the identifier 2 into the empty queues leaves the counter at 1; a fresh
  duplicate then draws 2, the insertion returns the old identifier, the surviving slot
  carries it, and closing 2 moves the surviving notification to the history.
\<close>

theorem fresh_id_collision_counterexample:
  "fst (queues_notification_insert example_settings cmp_urgency_id same_text 10
        (example_note\<lparr>n_id := 2\<rparr>) queues_init) = 2
   \<and> waiting (snd (queues_notification_insert example_settings cmp_urgency_id same_text 10
        (example_note\<lparr>n_id := 2\<rparr>) queues_init)) = [example_note\<lparr>n_id := 2\<rparr>]
   \<and> fst (queues_notification_insert example_settings cmp_urgency_id same_text 20 example_note
        (snd (queues_notification_insert example_settings cmp_urgency_id same_text 10
          (example_note\<lparr>n_id := 2\<rparr>) queues_init))) = 2
   \<and> waiting (snd (queues_notification_insert example_settings cmp_urgency_id same_text 20 example_note
        (snd (queues_notification_insert example_settings cmp_urgency_id same_text 10
          (example_note\<lparr>n_id := 2\<rparr>) queues_init))))
       = [example_note\<lparr>n_id := 2, dup_count := 1\<rparr>]
   \<and> waiting (projr (queues_notification_close_id example_settings 2 REASON_USER
        (snd (queues_notification_insert example_settings cmp_urgency_id same_text 20 example_note
          (snd (queues_notification_insert example_settings cmp_urgency_id same_text 10
            (example_note\<lparr>n_id := 2\<rparr>) queues_init)))))) = []
   \<and> history (projr (queues_notification_close_id example_settings 2 REASON_USER
        (snd (queues_notification_insert example_settings cmp_urgency_id same_text 20 example_note
          (snd (queues_notification_insert example_settings cmp_urgency_id same_text 10
            (example_note\<lparr>n_id := 2\<rparr>) queues_init))))))
       = [example_note\<lparr>n_id := 2, dup_count := 1\<rparr>]"
  by (simp add: queues_notification_insert_def insert_enqueue_def queues_stack_duplicate_def
      queues_notification_replace_id_def queues_notification_close_id_def close_target_def
      queues_history_push_def signal_notification_closed_def notification_free_def
      stack_orig_def same_text_def Let_def example_settings_def queues_init_def example_note_def
      int_wrap_def)

subsection \<open>The result of an insertion\<close>

text \<open>
  Claim C7 as amended. While the identifier counter is positive and in the range of
  \<open>int\<close>, the insertion returns 0 exactly when the text is empty or the summary is a
  command. With an empty text the state is unchanged but for the script run under
  \<open>always_run_script\<close>, whatever the summary. With a text and a command summary only
  the pause flag changes: set, cleared or toggled. Otherwise the notification, with the
  returned identifier, is in waiting or displayed, and the returned identifier is its
  own or, for a fresh one, the one drawn from the counter, and is not 0.
\<close>

theorem insert_zero_iff_discarded:
  assumes "0 < next_notification_id q" "is_int (next_notification_id q)"
  shows "(fst (queues_notification_insert st cmp is_dup now n q) = 0 \<longleftrightarrow> msg n = [] \<or> is_command n)
    \<and> (msg n = [] \<longrightarrow>
         queues_notification_insert st cmp is_dup now n q =
           (0, if always_run_script st then notification_run_script n q else q))
    \<and> (msg n \<noteq> [] \<and> summary n = ''DUNST_COMMAND_PAUSE'' \<longrightarrow>
         queues_notification_insert st cmp is_dup now n q = (0, q\<lparr>pause_displayed := True\<rparr>))
    \<and> (msg n \<noteq> [] \<and> summary n = ''DUNST_COMMAND_RESUME'' \<longrightarrow>
         queues_notification_insert st cmp is_dup now n q = (0, q\<lparr>pause_displayed := False\<rparr>))
    \<and> (msg n \<noteq> [] \<and> summary n = ''DUNST_COMMAND_TOGGLE'' \<longrightarrow>
         queues_notification_insert st cmp is_dup now n q =
           (0, q\<lparr>pause_displayed := \<not> pause_displayed q\<rparr>))
    \<and> (msg n \<noteq> [] \<and> \<not> is_command n \<longrightarrow>
         fst (queues_notification_insert st cmp is_dup now n q) =
           (if n_id n = 0 then fresh_id q else n_id n)
         \<and> (\<exists>n'\<in>set (waiting (snd (queues_notification_insert st cmp is_dup now n q))
                    @ displayed (snd (queues_notification_insert st cmp is_dup now n q))).
               n_id n' = fst (queues_notification_insert st cmp is_dup now n q)
               \<and> inserted_as n' n))"
proof -
  let ?r = "queues_notification_insert st cmp is_dup now n q"
  have discard: "msg n = [] \<or> is_command n \<Longrightarrow> fst ?r = 0"
    by (auto simp: queues_notification_insert_def is_command_def)
  have enq: "fst ?r = (if n_id n = 0 then fresh_id q else n_id n)
         \<and> (\<exists>n'\<in>set (waiting (snd ?r) @ displayed (snd ?r)). n_id n' = fst ?r \<and> inserted_as n' n)"
    if m: "msg n \<noteq> []" "\<not> is_command n"
  proof -
    obtain n' q' where e: "insert_enqueue st cmp is_dup now n q = (n', q')"
      by (cases "insert_enqueue st cmp is_dup now n q") auto
    have r: "?r = (n_id n', if print_notifications st then notification_print n' q' else q')"
      using m e by (simp add: queues_notification_insert_def is_command_def)
    from insert_enqueue_result[OF e] show ?thesis
      unfolding r by (auto simp: notification_print_def)
  qed
  have nz: "msg n \<noteq> [] \<Longrightarrow> \<not> is_command n \<Longrightarrow> fst ?r \<noteq> 0"
    using enq fresh_id_nonzero[OF assms] by (auto split: if_splits)
  have 1: "fst ?r = 0 \<longleftrightarrow> msg n = [] \<or> is_command n"
    using discard nz by blast
  have 2: "msg n = [] \<longrightarrow> ?r = (0, if always_run_script st then notification_run_script n q else q)"
    by (simp add: queues_notification_insert_def)
  have 3: "msg n \<noteq> [] \<and> summary n = ''DUNST_COMMAND_PAUSE'' \<longrightarrow> ?r = (0, q\<lparr>pause_displayed := True\<rparr>)"
    by (simp add: queues_notification_insert_def)
  have 4: "msg n \<noteq> [] \<and> summary n = ''DUNST_COMMAND_RESUME'' \<longrightarrow> ?r = (0, q\<lparr>pause_displayed := False\<rparr>)"
    by (simp add: queues_notification_insert_def)
  have 5: "msg n \<noteq> [] \<and> summary n = ''DUNST_COMMAND_TOGGLE'' \<longrightarrow>
      ?r = (0, q\<lparr>pause_displayed := \<not> pause_displayed q\<rparr>)"
    by (simp add: queues_notification_insert_def)
  show ?thesis using 1 2 3 4 5 enq by blast
qed

theorem insert_zero_iff_discarded_witness:
  "0 < next_notification_id two_waiting \<and> is_int (next_notification_id two_waiting)
   \<and> queues_notification_insert example_settings cmp_urgency_id same_text 50
        (example_note\<lparr>summary := ''DUNST_COMMAND_TOGGLE''\<rparr>) two_waiting
      = (0, two_waiting\<lparr>pause_displayed := True\<rparr>)
   \<and> fst (queues_notification_insert example_settings cmp_urgency_id same_text 50
        (example_note\<lparr>summary := ''chat''\<rparr>) two_waiting) = 4"
proof -
  have a: "0 < next_notification_id two_waiting" and b: "is_int (next_notification_id two_waiting)"
    by (simp_all add: two_waiting_def is_int_def)
  show ?thesis
    using a b
      insert_zero_iff_discarded[OF a b, where st = example_settings and cmp = cmp_urgency_id
        and is_dup = same_text and now = 50 and n = "example_note\<lparr>summary := ''DUNST_COMMAND_TOGGLE''\<rparr>"]
      insert_zero_iff_discarded[OF a b, where st = example_settings and cmp = cmp_urgency_id
        and is_dup = same_text and now = 50 and n = "example_note\<lparr>summary := ''chat''\<rparr>"]
    by (simp add: example_note_def is_command_def two_waiting_def queues_init_def fresh_id_def
        int_wrap_def)
qed

text \<open>
  Claim C7 as stated has the pause flag set whenever the summary is the pause command.
  The test for an empty text comes first: a pause command with an empty text is dropped
  and the flag stays as it was.
\<close>

theorem empty_text_command_counterexample:
  "summary (example_note\<lparr>msg := [], summary := ''DUNST_COMMAND_PAUSE''\<rparr>) = ''DUNST_COMMAND_PAUSE''
   \<and> queues_notification_insert example_settings cmp_urgency_id same_text 50
        (example_note\<lparr>msg := [], summary := ''DUNST_COMMAND_PAUSE''\<rparr>) queues_init = (0, queues_init)
   \<and> \<not> pause_displayed queues_init"
  by (simp add: queues_notification_insert_def example_settings_def example_note_def queues_init_def)

subsection \<open>Timeouts\<close>

lemma gint64_wrap_id: "is_gint64 x \<Longrightarrow> gint64_wrap x = x"
  by (simp add: is_gint64_def gint64_wrap_def)















subsection \<open>The next wake-up\<close>

text \<open>
  Claim C6 as amended. One displayed notification with start 0 and a positive timeout
  \<open>T\<close>, no age threshold, \<open>t\<close> and \<open>T\<close> in the range of \<open>gint64\<close>: when
  \<open>T - t\<close> is below \<open>G_MAXINT64\<close> the result is \<open>T - t\<close> for \<open>t < T\<close> and 0
  otherwise; when \<open>T - t\<close> is \<open>G_MAXINT64\<close>, the value that stands for "no bound",
  the result is -1.
\<close>

theorem next_datachange_single:
  assumes "displayed q = [n]" "start n = 0" "timeout n = T" "0 < T"
    and "show_age_threshold st < 0" "is_gint64 t" "is_gint64 T"
  shows "(T - t < G_MAXINT64 \<longrightarrow>
            queues_get_next_datachange st t q = (if t < T then T - t else 0))
       \<and> (T - t = G_MAXINT64 \<longrightarrow> queues_get_next_datachange st t q = - 1)"
proof -
  have e: "gint64_wrap (t - start n) = t"
    using assms(2,6) by (simp add: gint64_wrap_id)
  have r: "is_gint64 (T - t)" if "T - t \<le> G_MAXINT64"
    using that assms(4,6) by (simp add: is_gint64_def G_MAXINT64_def)
  have ttl: "gint64_wrap (timeout n - gint64_wrap (t - start n)) = T - t" if "T - t \<le> G_MAXINT64"
    using r[OF that] by (simp add: e assms(3) gint64_wrap_id)
  have pos: "0 < G_MAXINT64" by (simp add: G_MAXINT64_def)
  have a: "queues_get_next_datachange st t q = (if t < T then T - t else 0)" if "T - t < G_MAXINT64"
    using that ttl assms(3,4,5)
    by (simp add: queues_get_next_datachange_def assms(1) Let_def MIN_gint64_def)
  have b: "queues_get_next_datachange st t q = - 1" if "T - t = G_MAXINT64"
    using that ttl assms(3,4,5) pos
    by (simp add: queues_get_next_datachange_def assms(1) Let_def MIN_gint64_def)
  show ?thesis using a b by blast
qed

theorem next_datachange_single_witness:
  "displayed (queues_init\<lparr>displayed := [example_note]\<rparr>) = [example_note]
   \<and> start example_note = 0 \<and> timeout example_note = 5000 \<and> (0::int) < 5000
   \<and> show_age_threshold example_settings < 0 \<and> is_gint64 1200 \<and> is_gint64 5000
   \<and> queues_get_next_datachange example_settings 1200 (queues_init\<lparr>displayed := [example_note]\<rparr>) = 3800
   \<and> is_gint64 7000
   \<and> queues_get_next_datachange example_settings 7000 (queues_init\<lparr>displayed := [example_note]\<rparr>) = 0"
proof -
  have 1: "displayed (queues_init\<lparr>displayed := [example_note]\<rparr>) = [example_note]"
    and 2: "start example_note = 0" and 3: "timeout example_note = 5000" and 4: "(0::int) < 5000"
    and 5: "show_age_threshold example_settings < 0"
    and 6: "is_gint64 1200" and 7: "is_gint64 5000" and 8: "is_gint64 7000"
    by (simp_all add: example_note_def example_settings_def is_gint64_def)
  show ?thesis
    using 1 2 3 4 5 6 7 8
      next_datachange_single[OF 1 2 3 4 5 6 7]
      next_datachange_single[OF 1 2 3 4 5 8 7]
    by (simp add: G_MAXINT64_def)
qed

text \<open>
  Claim C6 as stated fails where the remaining time equals the value the function uses
  for "nothing constrains the sleep": with the timeout \<open>G_MAXINT64\<close> at time 0 the
  result is -1, not the remaining time.
\<close>

theorem next_datachange_sentinel_counterexample:
  "timeout (example_note\<lparr>timeout := G_MAXINT64\<rparr>) = 9223372036854775807
   \<and> start (example_note\<lparr>timeout := G_MAXINT64\<rparr>) = 0
   \<and> show_age_threshold example_settings < 0
   \<and> queues_get_next_datachange example_settings 0
        (queues_init\<lparr>displayed := [example_note\<lparr>timeout := G_MAXINT64\<rparr>]\<rparr>) = - 1"
  by (simp add: queues_get_next_datachange_def Let_def MIN_gint64_def G_MAXINT64_def
      gint64_wrap_def example_note_def example_settings_def)

subsection \<open>Pausing\<close>

lemma mset_insert_sorted: "mset (g_queue_insert_sorted xs d cmp) = add_mset d (mset xs)"
  by (induction xs) auto

lemma length_insert_sorted: "length (g_queue_insert_sorted xs d cmp) = Suc (length xs)"
  by (induction xs) auto

lemma update_pause_loop_foldl:
  "update_pause_loop cmp d w = foldl (\<lambda>w n. g_queue_insert_sorted w n cmp) w d"
  by (induction d arbitrary: w) simp_all

lemma mset_update_pause_loop: "mset (update_pause_loop cmp d w) = mset w + mset d"
  by (induction d arbitrary: w) (simp_all add: mset_insert_sorted)

lemma set_foldl_insert_sorted:
  "set (foldl (\<lambda>d n. g_queue_insert_sorted d n cmp) d ns) = set d \<union> set ns"
  by (induction ns arbitrary: d) (auto simp: set_insert_sorted)

lemma delete_link_current:
  "g_queue_delete_link (pre @ n # iter) (length (pre @ n # iter) - Suc (length iter)) = pre @ iter"
  by (simp add: g_queue_delete_link_def)

lemma promote_loop_no_fullscreen:
  assumes "waiting q = pre @ iter"
  shows "update_promote_loop cmp now False iter q =
     q\<lparr>waiting := pre @ drop (if displayed_limit q = 0 then length iter
                              else min (length iter) (displayed_limit q - length (displayed q))) iter,
       displayed := foldl (\<lambda>d n. g_queue_insert_sorted d n cmp) (displayed q)
          (map (\<lambda>n. n\<lparr>start := now\<rparr>)
            (take (if displayed_limit q = 0 then length iter
                   else min (length iter) (displayed_limit q - length (displayed q))) iter)),
       scripts_run := scripts_run q @ filter (\<lambda>n. \<not> redisplayed n \<and> script n \<noteq> None)
          (map (\<lambda>n. n\<lparr>start := now\<rparr>)
            (take (if displayed_limit q = 0 then length iter
                   else min (length iter) (displayed_limit q - length (displayed q))) iter))\<rparr>"
  using assms
proof (induction iter arbitrary: q)
  case Nil
  then show ?case by simp
next
  case (Cons n iter)
  show ?case
  proof (cases "displayed_limit q > 0 \<and> length (displayed q) \<ge> displayed_limit q")
    case True
    then have k: "(if displayed_limit q = 0 then length (n # iter)
        else min (length (n # iter)) (displayed_limit q - length (displayed q))) = 0"
      by simp
    have "update_promote_loop cmp now False (n # iter) q = q" using True by simp
    then show ?thesis unfolding k using Cons.prems by simp
  next
    case False
    define n' where "n' = n\<lparr>start := now\<rparr>"
    define q1 where "q1 = (if \<not> redisplayed n' \<and> script n' \<noteq> None then notification_run_script n' q else q)"
    define q2 where "q2 = q1\<lparr>waiting :=
                  g_queue_delete_link (waiting q1) (length (waiting q1) - Suc (length iter)),
                displayed := g_queue_insert_sorted (displayed q1) n' cmp\<rparr>"
    have step: "update_promote_loop cmp now False (n # iter) q = update_promote_loop cmp now False iter q2"
      unfolding q2_def q1_def n'_def update_promote_loop.simps Let_def
      by (simp only: False if_False simp_thms)
    have q1: "displayed q1 = displayed q" "waiting q1 = pre @ n # iter"
      "displayed_limit q1 = displayed_limit q"
      "scripts_run q1 = scripts_run q @ (if \<not> redisplayed n' \<and> script n' \<noteq> None then [n'] else [])"
      by (simp_all add: q1_def notification_run_script_def Cons.prems)
    have q2: "waiting q2 = pre @ iter" "displayed q2 = g_queue_insert_sorted (displayed q) n' cmp"
      "displayed_limit q2 = displayed_limit q" "scripts_run q2 = scripts_run q1"
      using delete_link_current[of pre n iter] by (simp_all add: q2_def q1)
    define k' where "k' = (if displayed_limit q = 0 then length iter
        else min (length iter) (displayed_limit q - Suc (length (displayed q))))"
    have k: "(if displayed_limit q = 0 then length (n # iter)
        else min (length (n # iter)) (displayed_limit q - length (displayed q))) = Suc k'"
      using False by (auto simp: k'_def)
    have IH: "update_promote_loop cmp now False iter q2 =
       q2\<lparr>waiting := pre @ drop k' iter,
          displayed := foldl (\<lambda>d n. g_queue_insert_sorted d n cmp) (displayed q2)
            (map (\<lambda>n. n\<lparr>start := now\<rparr>) (take k' iter)),
          scripts_run := scripts_run q2 @ filter (\<lambda>n. \<not> redisplayed n \<and> script n \<noteq> None)
            (map (\<lambda>n. n\<lparr>start := now\<rparr>) (take k' iter))\<rparr>"
      using Cons.IH[OF q2(1)] by (simp add: q2 k'_def length_insert_sorted)
    have e: "q2\<lparr>waiting := w, displayed := d, scripts_run := s\<rparr> = q\<lparr>waiting := w, displayed := d, scripts_run := s\<rparr>"
      for w d s
      by (simp add: q2_def q1_def notification_run_script_def)
    show ?thesis
      unfolding step IH k e by (simp add: q2 q1 n'_def)
  qed
qed

lemma promote_loop_keeps_delayed:
  assumes "waiting q = pre @ iter"
  shows "filter (\<lambda>n. fullscreen n = FS_DELAY \<or> fullscreen n = FS_PUSHBACK)
            (waiting (update_promote_loop cmp now True iter q))
         = filter (\<lambda>n. fullscreen n = FS_DELAY \<or> fullscreen n = FS_PUSHBACK) (waiting q)
       \<and> ((\<forall>n\<in>set (displayed q). fullscreen n = FS_SHOW) \<longrightarrow>
            (\<forall>n\<in>set (displayed (update_promote_loop cmp now True iter q)). fullscreen n = FS_SHOW))"
  using assms
proof (induction iter arbitrary: q pre)
  case Nil
  then show ?case by simp
next
  case (Cons n iter)
  show ?case
  proof (cases "displayed_limit q > 0 \<and> length (displayed q) \<ge> displayed_limit q")
    case True
    then show ?thesis by simp
  next
    case limit: False
    show ?thesis
    proof (cases "fullscreen n = FS_DELAY \<or> fullscreen n = FS_PUSHBACK")
      case True
      have step: "update_promote_loop cmp now True (n # iter) q = update_promote_loop cmp now True iter q"
        unfolding update_promote_loop.simps by (simp only: limit True if_False if_True simp_thms)
      have "waiting q = (pre @ [n]) @ iter" using Cons.prems by simp
      from Cons.IH[OF this] show ?thesis unfolding step .
    next
      case False
      define n' where "n' = n\<lparr>start := now\<rparr>"
      define q1 where "q1 = (if \<not> redisplayed n' \<and> script n' \<noteq> None then notification_run_script n' q else q)"
      define q2 where "q2 = q1\<lparr>waiting :=
                    g_queue_delete_link (waiting q1) (length (waiting q1) - Suc (length iter)),
                  displayed := g_queue_insert_sorted (displayed q1) n' cmp\<rparr>"
      have step: "update_promote_loop cmp now True (n # iter) q = update_promote_loop cmp now True iter q2"
        unfolding q2_def q1_def n'_def update_promote_loop.simps Let_def
        by (simp only: limit False if_False simp_thms)
      have q1: "displayed q1 = displayed q" "waiting q1 = pre @ n # iter"
        by (simp_all add: q1_def notification_run_script_def Cons.prems)
      have q2: "waiting q2 = pre @ iter" "displayed q2 = g_queue_insert_sorted (displayed q) n' cmp"
        using delete_link_current[of pre n iter] by (simp_all add: q2_def q1)
      have show': "fullscreen n' = FS_SHOW"
        using False by (cases "fullscreen n") (simp_all add: n'_def)
      have w: "filter (\<lambda>n. fullscreen n = FS_DELAY \<or> fullscreen n = FS_PUSHBACK) (waiting q2)
          = filter (\<lambda>n. fullscreen n = FS_DELAY \<or> fullscreen n = FS_PUSHBACK) (waiting q)"
        using False by (simp add: q2 Cons.prems)
      have d: "(\<forall>n\<in>set (displayed q). fullscreen n = FS_SHOW) \<longrightarrow>
          (\<forall>n\<in>set (displayed q2). fullscreen n = FS_SHOW)"
        using show' by (simp add: q2 set_insert_sorted)
      from Cons.IH[OF q2(1)]
      have ih1: "filter (\<lambda>n. fullscreen n = FS_DELAY \<or> fullscreen n = FS_PUSHBACK)
            (waiting (update_promote_loop cmp now True iter q2))
          = filter (\<lambda>n. fullscreen n = FS_DELAY \<or> fullscreen n = FS_PUSHBACK) (waiting q2)"
        and ih2: "(\<forall>n\<in>set (displayed q2). fullscreen n = FS_SHOW) \<longrightarrow>
            (\<forall>n\<in>set (displayed (update_promote_loop cmp now True iter q2)). fullscreen n = FS_SHOW)"
        by blast+
      show ?thesis
        unfolding step
      proof (intro conjI)
        show "filter (\<lambda>n. fullscreen n = FS_DELAY \<or> fullscreen n = FS_PUSHBACK)
            (waiting (update_promote_loop cmp now True iter q2))
          = filter (\<lambda>n. fullscreen n = FS_DELAY \<or> fullscreen n = FS_PUSHBACK) (waiting q)"
          using ih1 w by (rule trans)
        show "(\<forall>n\<in>set (displayed q). fullscreen n = FS_SHOW) \<longrightarrow>
            (\<forall>n\<in>set (displayed (update_promote_loop cmp now True iter q2)). fullscreen n = FS_SHOW)"
          using ih2 d by blast
      qed
    qed
  qed
qed

lemma drop_first_0: "drop_first 0 P xs = xs"
  by (cases xs) simp_all

lemma drop_first_skip: "\<not> P x \<Longrightarrow> drop_first k P (x # xs) = x # drop_first k P xs"
  by (cases k) (simp_all add: drop_first_0)

lemma drop_first_take: "P x \<Longrightarrow> drop_first (Suc k) P (x # xs) = drop_first k P xs"
  by simp

lemma promote_loop_fullscreen:
  assumes "waiting q = pre @ iter"
  shows "update_promote_loop cmp now True iter q =
     q\<lparr>waiting := pre @ drop_first
          (if displayed_limit q = 0
           then length (filter (\<lambda>n. \<not> (fullscreen n = FS_DELAY \<or> fullscreen n = FS_PUSHBACK)) iter)
           else min (length (filter (\<lambda>n. \<not> (fullscreen n = FS_DELAY \<or> fullscreen n = FS_PUSHBACK)) iter))
                  (displayed_limit q - length (displayed q)))
          (\<lambda>n. \<not> (fullscreen n = FS_DELAY \<or> fullscreen n = FS_PUSHBACK)) iter,
       displayed := foldl (\<lambda>d n. g_queue_insert_sorted d n cmp) (displayed q)
          (map (\<lambda>n. n\<lparr>start := now\<rparr>)
            (take (if displayed_limit q = 0
                   then length (filter (\<lambda>n. \<not> (fullscreen n = FS_DELAY \<or> fullscreen n = FS_PUSHBACK)) iter)
                   else min (length (filter (\<lambda>n. \<not> (fullscreen n = FS_DELAY \<or> fullscreen n = FS_PUSHBACK)) iter))
                          (displayed_limit q - length (displayed q)))
              (filter (\<lambda>n. \<not> (fullscreen n = FS_DELAY \<or> fullscreen n = FS_PUSHBACK)) iter))),
       scripts_run := scripts_run q @ filter (\<lambda>n. \<not> redisplayed n \<and> script n \<noteq> None)
          (map (\<lambda>n. n\<lparr>start := now\<rparr>)
            (take (if displayed_limit q = 0
                   then length (filter (\<lambda>n. \<not> (fullscreen n = FS_DELAY \<or> fullscreen n = FS_PUSHBACK)) iter)
                   else min (length (filter (\<lambda>n. \<not> (fullscreen n = FS_DELAY \<or> fullscreen n = FS_PUSHBACK)) iter))
                          (displayed_limit q - length (displayed q)))
              (filter (\<lambda>n. \<not> (fullscreen n = FS_DELAY \<or> fullscreen n = FS_PUSHBACK)) iter)))\<rparr>"
  using assms
proof (induction iter arbitrary: q pre)
  case Nil
  then show ?case by simp
next
  case (Cons n iter)
  let ?P = "\<lambda>n. \<not> (fullscreen n = FS_DELAY \<or> fullscreen n = FS_PUSHBACK)"
  show ?case
  proof (cases "displayed_limit q > 0 \<and> length (displayed q) \<ge> displayed_limit q")
    case True
    then have k: "(if displayed_limit q = 0 then length (filter ?P (n # iter))
        else min (length (filter ?P (n # iter))) (displayed_limit q - length (displayed q))) = 0"
      by simp
    have "update_promote_loop cmp now True (n # iter) q = q" using True by simp
    then show ?thesis unfolding k using Cons.prems by (simp add: drop_first_0)
  next
    case limit: False
    show ?thesis
    proof (cases "fullscreen n = FS_DELAY \<or> fullscreen n = FS_PUSHBACK")
      case True
      have step: "update_promote_loop cmp now True (n # iter) q = update_promote_loop cmp now True iter q"
        unfolding update_promote_loop.simps by (simp only: limit True if_False if_True simp_thms)
      have w: "waiting q = (pre @ [n]) @ iter" using Cons.prems by simp
      have f: "filter ?P (n # iter) = filter ?P iter" using True by simp
      have np: "\<not> ?P n" using True by simp
      show ?thesis
        unfolding step Cons.IH[OF w] f drop_first_skip[of ?P n, OF np] by simp
    next
      case False
      define n' where "n' = n\<lparr>start := now\<rparr>"
      define q1 where "q1 = (if \<not> redisplayed n' \<and> script n' \<noteq> None then notification_run_script n' q else q)"
      define q2 where "q2 = q1\<lparr>waiting :=
                    g_queue_delete_link (waiting q1) (length (waiting q1) - Suc (length iter)),
                  displayed := g_queue_insert_sorted (displayed q1) n' cmp\<rparr>"
      have step: "update_promote_loop cmp now True (n # iter) q = update_promote_loop cmp now True iter q2"
        unfolding q2_def q1_def n'_def update_promote_loop.simps Let_def
        by (simp only: limit False if_False simp_thms)
      have q1: "displayed q1 = displayed q" "waiting q1 = pre @ n # iter"
        "displayed_limit q1 = displayed_limit q"
        "scripts_run q1 = scripts_run q @ (if \<not> redisplayed n' \<and> script n' \<noteq> None then [n'] else [])"
        by (simp_all add: q1_def notification_run_script_def Cons.prems)
      have q2: "waiting q2 = pre @ iter" "displayed q2 = g_queue_insert_sorted (displayed q) n' cmp"
        "displayed_limit q2 = displayed_limit q" "scripts_run q2 = scripts_run q1"
        using delete_link_current[of pre n iter] by (simp_all add: q2_def q1)
      define k' where "k' = (if displayed_limit q = 0 then length (filter ?P iter)
          else min (length (filter ?P iter)) (displayed_limit q - Suc (length (displayed q))))"
      have f: "filter ?P (n # iter) = n # filter ?P iter" using False by simp
      have k: "(if displayed_limit q = 0 then length (filter ?P (n # iter))
          else min (length (filter ?P (n # iter))) (displayed_limit q - length (displayed q))) = Suc k'"
        using limit False by (auto simp: k'_def)
      have IH: "update_promote_loop cmp now True iter q2 =
         q2\<lparr>waiting := pre @ drop_first k' ?P iter,
            displayed := foldl (\<lambda>d n. g_queue_insert_sorted d n cmp) (displayed q2)
              (map (\<lambda>n. n\<lparr>start := now\<rparr>) (take k' (filter ?P iter))),
            scripts_run := scripts_run q2 @ filter (\<lambda>n. \<not> redisplayed n \<and> script n \<noteq> None)
              (map (\<lambda>n. n\<lparr>start := now\<rparr>) (take k' (filter ?P iter)))\<rparr>"
        using Cons.IH[OF q2(1)] by (simp add: q2 k'_def length_insert_sorted)
      have e: "q2\<lparr>waiting := w, displayed := d, scripts_run := s\<rparr> = q\<lparr>waiting := w, displayed := d, scripts_run := s\<rparr>"
        for w d s
        by (simp add: q2_def q1_def notification_run_script_def)
      have df: "drop_first (Suc k') ?P (n # iter) = drop_first k' ?P iter"
        using False by simp
      show ?thesis
        unfolding step IH k unfolding e df f by (simp add: q2 q1 n'_def)
    qed
  qed
qed

text \<open>
  Claim C9 as amended. While the pause flag is set, \<open>queues_update\<close> empties
  displayed, inserts every displayed notification into waiting with
  \<open>g_queue_insert_sorted\<close> (so waiting holds the entries of both queues, and stays
  sorted for a consistent comparator), runs no script and promotes nothing, so displayed
  does not grow. After the flag is cleared, an update without fullscreen promotes the
  entries of waiting in order, stamping their start, until the display limit is reached
  (all of them when the limit is 0, so every formerly displayed entry is displayed
  again). An update with fullscreen does the same with the entries whose mode is neither
  \<open>FS_DELAY\<close> nor \<open>FS_PUSHBACK\<close>: the first of them, up to the limit, are promoted
  and leave waiting; every entry in one of the two modes stays in waiting and none is
  displayed.
\<close>

theorem pause_semantics:
  assumes "pause_displayed q"
  shows "displayed (queues_update cmp now fs q) = []
     \<and> waiting (queues_update cmp now fs q)
         = foldl (\<lambda>w n. g_queue_insert_sorted w n cmp) (waiting q) (displayed q)
     \<and> mset (waiting (queues_update cmp now fs q)) = mset (waiting q) + mset (displayed q)
     \<and> (cmp_consistent cmp \<and> queue_sorted cmp (waiting q) \<longrightarrow>
          queue_sorted cmp (waiting (queues_update cmp now fs q)))
     \<and> scripts_run (queues_update cmp now fs q) = scripts_run q
     \<and> length (displayed (queues_update cmp now fs q)) \<le> length (displayed q)
     \<and> (let q1 = queues_update cmp now fs q;
             q2 = queues_update cmp now' False (queues_pause_off q1);
             k = (if displayed_limit q = 0 then length (waiting q1)
                  else min (length (waiting q1)) (displayed_limit q))
         in waiting q2 = drop k (waiting q1)
            \<and> displayed q2 = foldl (\<lambda>d n. g_queue_insert_sorted d n cmp) []
                 (map (\<lambda>n. n\<lparr>start := now'\<rparr>) (take k (waiting q1)))
            \<and> (displayed_limit q = 0 \<longrightarrow>
                 (\<forall>n\<in>set (displayed q). n\<lparr>start := now'\<rparr> \<in> set (displayed q2))))
     \<and> (let q1 = queues_update cmp now fs q;
             q3 = queues_update cmp now' True (queues_pause_off q1)
         in filter (\<lambda>n. fullscreen n = FS_DELAY \<or> fullscreen n = FS_PUSHBACK) (waiting q3)
              = filter (\<lambda>n. fullscreen n = FS_DELAY \<or> fullscreen n = FS_PUSHBACK) (waiting q1)
            \<and> (\<forall>n\<in>set (displayed q3). fullscreen n = FS_SHOW))
     \<and> (let q1 = queues_update cmp now fs q;
             q3 = queues_update cmp now' True (queues_pause_off q1);
             free = filter (\<lambda>n. \<not> (fullscreen n = FS_DELAY \<or> fullscreen n = FS_PUSHBACK)) (waiting q1);
             k = (if displayed_limit q = 0 then length free
                  else min (length free) (displayed_limit q))
         in waiting q3 = drop_first k (\<lambda>n. \<not> (fullscreen n = FS_DELAY \<or> fullscreen n = FS_PUSHBACK))
                           (waiting q1)
            \<and> displayed q3 = foldl (\<lambda>d n. g_queue_insert_sorted d n cmp) []
                 (map (\<lambda>n. n\<lparr>start := now'\<rparr>) (take k free))
            \<and> (displayed_limit q = 0 \<longrightarrow>
                 (\<forall>n\<in>set (displayed q).
                    \<not> (fullscreen n = FS_DELAY \<or> fullscreen n = FS_PUSHBACK) \<longrightarrow>
                    n\<lparr>start := now'\<rparr> \<in> set (displayed q3))))"
proof -
  define q1 where "q1 = queues_update cmp now fs q"
  have q1: "q1 = q\<lparr>waiting := update_pause_loop cmp (displayed q) (waiting q), displayed := []\<rparr>"
    using assms by (simp add: q1_def queues_update_def)
  have d1: "displayed q1 = []" and l1: "displayed_limit q1 = displayed_limit q"
    and s1: "scripts_run q1 = scripts_run q"
    by (simp_all add: q1)
  have w1: "waiting q1 = foldl (\<lambda>w n. g_queue_insert_sorted w n cmp) (waiting q) (displayed q)"
    by (simp add: q1 update_pause_loop_foldl)
  have m1: "mset (waiting q1) = mset (waiting q) + mset (displayed q)"
    by (simp add: q1 mset_update_pause_loop)
  have so1: "cmp_consistent cmp \<and> queue_sorted cmp (waiting q) \<longrightarrow> queue_sorted cmp (waiting q1)"
    by (simp add: q1 update_pause_loop_sorted)
  define p where "p = queues_pause_off q1"
  have p: "\<not> pause_displayed p" "displayed p = []" "waiting p = waiting q1"
    "displayed_limit p = displayed_limit q"
    by (simp_all add: p_def queues_pause_off_def d1 l1)
  define k where "k = (if displayed_limit q = 0 then length (waiting q1)
                  else min (length (waiting q1)) (displayed_limit q))"
  have u2: "queues_update cmp now' False p = update_promote_loop cmp now' False (waiting p) p"
    using p(1) by (simp add: queues_update_def)
  have "waiting p = [] @ waiting p" by simp
  from promote_loop_no_fullscreen[OF this, of cmp now']
  have r2: "waiting (queues_update cmp now' False p) = drop k (waiting q1)"
    "displayed (queues_update cmp now' False p) = foldl (\<lambda>d n. g_queue_insert_sorted d n cmp) []
                 (map (\<lambda>n. n\<lparr>start := now'\<rparr>) (take k (waiting q1)))"
    unfolding u2 by (simp_all add: p k_def)
  have all2: "\<forall>n\<in>set (displayed q). n\<lparr>start := now'\<rparr> \<in> set (displayed (queues_update cmp now' False p))"
    if "displayed_limit q = 0"
  proof
    fix n assume "n \<in> set (displayed q)"
    then have "n \<in># mset (waiting q1)" by (simp add: m1)
    then have "n \<in> set (waiting q1)" by simp
    moreover have "k = length (waiting q1)" using that by (simp add: k_def)
    ultimately show "n\<lparr>start := now'\<rparr> \<in> set (displayed (queues_update cmp now' False p))"
      by (simp add: r2 set_foldl_insert_sorted)
  qed
  have u3: "queues_update cmp now' True p = update_promote_loop cmp now' True (waiting p) p"
    using p(1,2) by (simp add: queues_update_def)
  have "waiting p = [] @ waiting p" by simp
  from promote_loop_keeps_delayed[OF this, of cmp now']
  have r3: "filter (\<lambda>n. fullscreen n = FS_DELAY \<or> fullscreen n = FS_PUSHBACK)
              (waiting (queues_update cmp now' True p))
            = filter (\<lambda>n. fullscreen n = FS_DELAY \<or> fullscreen n = FS_PUSHBACK) (waiting q1)"
    "\<forall>n\<in>set (displayed (queues_update cmp now' True p)). fullscreen n = FS_SHOW"
    unfolding u3 by (simp_all add: p)
  define free where
    "free = filter (\<lambda>n. \<not> (fullscreen n = FS_DELAY \<or> fullscreen n = FS_PUSHBACK)) (waiting q1)"
  define j where "j = (if displayed_limit q = 0 then length free
                  else min (length free) (displayed_limit q))"
  have "waiting p = [] @ waiting p" by simp
  from promote_loop_fullscreen[OF this, of cmp now']
  have r4: "waiting (queues_update cmp now' True p)
        = drop_first j (\<lambda>n. \<not> (fullscreen n = FS_DELAY \<or> fullscreen n = FS_PUSHBACK)) (waiting q1)"
    "displayed (queues_update cmp now' True p) = foldl (\<lambda>d n. g_queue_insert_sorted d n cmp) []
                 (map (\<lambda>n. n\<lparr>start := now'\<rparr>) (take j free))"
    unfolding u3 by (simp_all add: p j_def free_def)
  have all4: "\<forall>n\<in>set (displayed q).
      \<not> (fullscreen n = FS_DELAY \<or> fullscreen n = FS_PUSHBACK) \<longrightarrow>
      n\<lparr>start := now'\<rparr> \<in> set (displayed (queues_update cmp now' True p))"
    if "displayed_limit q = 0"
  proof (intro ballI impI)
    fix n assume "n \<in> set (displayed q)"
      and f: "\<not> (fullscreen n = FS_DELAY \<or> fullscreen n = FS_PUSHBACK)"
    then have "n \<in># mset (waiting q1)" by (simp add: m1)
    then have "n \<in> set free" using f by (simp add: free_def)
    moreover have "j = length free" using that by (simp add: j_def)
    ultimately show "n\<lparr>start := now'\<rparr> \<in> set (displayed (queues_update cmp now' True p))"
      by (simp add: r4 set_foldl_insert_sorted)
  qed
  have A: "displayed q1 = []
     \<and> waiting q1 = foldl (\<lambda>w n. g_queue_insert_sorted w n cmp) (waiting q) (displayed q)
     \<and> mset (waiting q1) = mset (waiting q) + mset (displayed q)
     \<and> (cmp_consistent cmp \<and> queue_sorted cmp (waiting q) \<longrightarrow> queue_sorted cmp (waiting q1))
     \<and> scripts_run q1 = scripts_run q
     \<and> length (displayed q1) \<le> length (displayed q)"
    using d1 w1 m1 so1 s1 by simp
  have B: "waiting (queues_update cmp now' False p) = drop k (waiting q1)
      \<and> displayed (queues_update cmp now' False p) = foldl (\<lambda>d n. g_queue_insert_sorted d n cmp) []
                 (map (\<lambda>n. n\<lparr>start := now'\<rparr>) (take k (waiting q1)))
      \<and> (displayed_limit q = 0 \<longrightarrow>
           (\<forall>n\<in>set (displayed q). n\<lparr>start := now'\<rparr> \<in> set (displayed (queues_update cmp now' False p))))"
    using r2 all2 by blast
  have C: "filter (\<lambda>n. fullscreen n = FS_DELAY \<or> fullscreen n = FS_PUSHBACK)
              (waiting (queues_update cmp now' True p))
            = filter (\<lambda>n. fullscreen n = FS_DELAY \<or> fullscreen n = FS_PUSHBACK) (waiting q1)
      \<and> (\<forall>n\<in>set (displayed (queues_update cmp now' True p)). fullscreen n = FS_SHOW)"
    using r3 by blast
  have D: "waiting (queues_update cmp now' True p)
        = drop_first j (\<lambda>n. \<not> (fullscreen n = FS_DELAY \<or> fullscreen n = FS_PUSHBACK)) (waiting q1)
      \<and> displayed (queues_update cmp now' True p) = foldl (\<lambda>d n. g_queue_insert_sorted d n cmp) []
                 (map (\<lambda>n. n\<lparr>start := now'\<rparr>) (take j free))
      \<and> (displayed_limit q = 0 \<longrightarrow>
           (\<forall>n\<in>set (displayed q).
              \<not> (fullscreen n = FS_DELAY \<or> fullscreen n = FS_PUSHBACK) \<longrightarrow>
              n\<lparr>start := now'\<rparr> \<in> set (displayed (queues_update cmp now' True p))))"
    using r4 all4 by blast
  show ?thesis
    unfolding Let_def q1_def[symmetric] p_def[symmetric] k_def[symmetric]
      free_def[symmetric] j_def[symmetric]
    using A B C D by (intro conjI) (elim conjE; assumption)+
qed



theorem pause_semantics_witness:
  "pause_displayed paused_delayed
   \<and> queues_update cmp_urgency_id 20 False paused_delayed
       = paused_delayed\<lparr>displayed := [],
           waiting := [example_note\<lparr>n_id := 2, start := 10, fullscreen := FS_DELAY\<rparr>,
                       example_note\<lparr>n_id := 3\<rparr>]\<rparr>
   \<and> displayed (queues_update cmp_urgency_id 30 False
        (queues_pause_off (queues_update cmp_urgency_id 20 False paused_delayed)))
       = [example_note\<lparr>n_id := 2, start := 30, fullscreen := FS_DELAY\<rparr>,
          example_note\<lparr>n_id := 3, start := 30\<rparr>]"
proof -
  have a: "pause_displayed paused_delayed" by (simp add: paused_delayed_def)
  have u: "queues_update cmp_urgency_id 20 False paused_delayed
       = paused_delayed\<lparr>displayed := [],
           waiting := [example_note\<lparr>n_id := 2, start := 10, fullscreen := FS_DELAY\<rparr>,
                       example_note\<lparr>n_id := 3\<rparr>]\<rparr>"
    by (simp add: queues_update_def paused_delayed_def cmp_urgency_id_def example_note_def)
  show ?thesis
    using a u pause_semantics[OF a, of cmp_urgency_id 20 False 30]
    by (simp add: Let_def paused_delayed_def queues_init_def cmp_urgency_id_def example_note_def)
qed

text \<open>
  Claim C9 as stated lets only the order and the display limit decide what comes back.
  Under fullscreen the mode decides too: a formerly displayed \<open>FS_DELAY\<close> entry stays
  in waiting after the pause is cleared, with no display limit, while the entry behind
  it is promoted.
\<close>

theorem pause_fullscreen_counterexample:
  "pause_displayed paused_delayed \<and> displayed_limit paused_delayed = 0
   \<and> displayed paused_delayed = [example_note\<lparr>n_id := 2, start := 10, fullscreen := FS_DELAY\<rparr>]
   \<and> \<not> pause_displayed (queues_pause_off (queues_update cmp_urgency_id 20 True paused_delayed))
   \<and> displayed (queues_update cmp_urgency_id 30 True
        (queues_pause_off (queues_update cmp_urgency_id 20 True paused_delayed)))
       = [example_note\<lparr>n_id := 3, start := 30\<rparr>]
   \<and> waiting (queues_update cmp_urgency_id 30 True
        (queues_pause_off (queues_update cmp_urgency_id 20 True paused_delayed)))
       = [example_note\<lparr>n_id := 2, start := 10, fullscreen := FS_DELAY\<rparr>]"
  by (simp add: queues_update_def queues_pause_off_def paused_delayed_def queues_init_def
      cmp_urgency_id_def example_note_def g_queue_delete_link_def Let_def)

end
